theory Spec2Isabelle
  imports Main
begin

section \<open>Data model\<close>

text \<open>
  The program of \<^verbatim>\<open>src/unnamed/part_000\<close> reads a grid of elevations and finds the
  longest strictly descending routes through it, then keeps the steepest of them.
  \<^verbatim>\<open>src/find_longest_route.js\<close> is a second copy of the same program; the places where it
  differs are modelled separately below, with the suffix \<open>_flr\<close>.

  A box is the object \<^verbatim>\<open>{x, y, elevation}\<close> made by \<^verbatim>\<open>createDataMap\<close>; \<^verbatim>\<open>processBox\<close> later
  adds \<^verbatim>\<open>maxDistance\<close> and \<^verbatim>\<open>goodDirections\<close>. A property that has not been set yet reads as
  \<^verbatim>\<open>undefined\<close>: that is \<open>None\<close>. Elevations are integers.
\<close>

datatype error = TypeError

type_synonym direction = "int \<times> int"

record box =
  x :: int
  y :: int
  elevation :: int
  maxDistance :: "int option"
  goodDirections :: "direction list option"

type_synonym dataMap = "box list list"

text \<open>
  \<^verbatim>\<open>array[i]\<close> in JavaScript: \<^verbatim>\<open>undefined\<close> when \<open>i\<close> is not an index of the array
  (negative, or past the end).
\<close>

definition js_index :: "'a list \<Rightarrow> int \<Rightarrow> 'a option" where
  "js_index xs i = (if 0 \<le> i \<and> i < int (length xs) then Some (xs ! nat i) else None)"

definition createDataMap :: "int list list \<Rightarrow> dataMap" where
  "createDataMap mountainMap =
     map (\<lambda>(row_y, row).
            map (\<lambda>(col_x, elev).
                   \<lparr>x = int col_x, y = int row_y, elevation = elev,
                    maxDistance = None, goodDirections = None\<rparr>)
                (enumerate 0 row))
         (enumerate 0 mountainMap)"

text \<open>\<^verbatim>\<open>var row = array2d[y]; return row && row[x];\<close> An array is truthy, also when empty.\<close>

definition getBoxAt :: "dataMap \<Rightarrow> int \<Rightarrow> int \<Rightarrow> box option" where
  "getBoxAt array2d bx by =
     (case js_index array2d by of
        None \<Rightarrow> None
      | Some row \<Rightarrow> js_index row bx)"

definition getNeighbourInDirection :: "dataMap \<Rightarrow> box \<Rightarrow> direction \<Rightarrow> box option" where
  "getNeighbourInDirection dataMap b direction =
     getBoxAt dataMap (x b + fst direction) (y b + snd direction)"

section \<open>Distance solver\<close>

text \<open>
  \<^verbatim>\<open>processBox\<close> mutates the box it is given, and that object is shared between the sorted
  list \<^verbatim>\<open>boxesFromLowToHigh\<close> and \<^verbatim>\<open>dataMap\<close>. The store of the model is \<open>dataMap\<close> itself, and
  a reference to a box is its place there: row index and column index. A place outside
  \<open>dataMap\<close> refers to no object; the program cannot form one, since all its references are
  taken from \<^verbatim>\<open>_.flatten(dataMap)\<close>, and the model answers \<open>TypeError\<close> where one is followed.
\<close>

type_synonym ref = "nat \<times> nat"

definition deref :: "dataMap \<Rightarrow> ref \<Rightarrow> box option" where
  "deref dataMap r =
     (if fst r < length dataMap \<and> snd r < length (dataMap ! fst r)
      then Some (dataMap ! fst r ! snd r) else None)"

definition assign :: "dataMap \<Rightarrow> ref \<Rightarrow> box \<Rightarrow> dataMap" where
  "assign dataMap r b = dataMap[fst r := (dataMap ! fst r)[snd r := b]]"

definition DIRECTIONS :: "direction list" where
  "DIRECTIONS = [(-1, 0), (0, 1), (1, 0), (0, -1)]"

text \<open>
  Comparison of two JavaScript numbers where \<open>None\<close> stands for \<^verbatim>\<open>undefined\<close> or \<^verbatim>\<open>NaN\<close>:
  every comparison with one of them is false.
\<close>

definition js_gt :: "int option \<Rightarrow> int option \<Rightarrow> bool" where
  "js_gt a b = (case (a, b) of (Some m, Some n) \<Rightarrow> m > n | _ \<Rightarrow> False)"

definition js_ge :: "int option \<Rightarrow> int option \<Rightarrow> bool" where
  "js_ge a b = (case (a, b) of (Some m, Some n) \<Rightarrow> m \<ge> n | _ \<Rightarrow> False)"

text \<open>
  The body of \<^verbatim>\<open>DIRECTIONS.forEach\<close> in \<^verbatim>\<open>processBox\<close>, for the box at reference \<open>r\<close>.
  \<^verbatim>\<open>neighbour.maxDistance + 1\<close> is \<^verbatim>\<open>NaN\<close> when the neighbour has no \<^verbatim>\<open>maxDistance\<close> yet;
  \<^verbatim>\<open>box.goodDirections.push\<close> throws a TypeError when \<^verbatim>\<open>goodDirections\<close> is \<^verbatim>\<open>undefined\<close>.
\<close>

definition processDirection :: "ref \<Rightarrow> direction \<Rightarrow> dataMap \<Rightarrow> error + dataMap" where
  "processDirection r direction dataMap =
     (case deref dataMap r of
        None \<Rightarrow> Inl TypeError
      | Some b \<Rightarrow>
          (case getNeighbourInDirection dataMap b direction of
             None \<Rightarrow> Inr dataMap
           | Some neighbour \<Rightarrow>
               if elevation neighbour < elevation b then
                 let distanceViaNeighbour = map_option (\<lambda>d. d + 1) (maxDistance neighbour);
                     b1 = (if js_gt distanceViaNeighbour (maxDistance b)
                           then b\<lparr>goodDirections := Some [], maxDistance := distanceViaNeighbour\<rparr>
                           else b)
                 in if js_ge distanceViaNeighbour (maxDistance b1)
                    then (case goodDirections b1 of
                            None \<Rightarrow> Inl TypeError
                          | Some ds \<Rightarrow>
                              Inr (assign dataMap r (b1\<lparr>goodDirections := Some (ds @ [direction])\<rparr>)))
                    else Inr (assign dataMap r b1)
               else Inr dataMap))"

text \<open>\<^verbatim>\<open>forEach\<close> with a body that may throw: the first error ends the loop.\<close>

fun forEach :: "('a \<Rightarrow> 's \<Rightarrow> error + 's) \<Rightarrow> 'a list \<Rightarrow> 's \<Rightarrow> error + 's" where
  "forEach f [] s = Inr s"
| "forEach f (a # as) s = (case f a s of Inl e \<Rightarrow> Inl e | Inr s' \<Rightarrow> forEach f as s')"

definition processBox :: "ref \<Rightarrow> dataMap \<Rightarrow> error + dataMap" where
  "processBox r dataMap =
     (case deref dataMap r of
        None \<Rightarrow> Inl TypeError
      | Some b \<Rightarrow>
          forEach (processDirection r) DIRECTIONS (assign dataMap r (b\<lparr>maxDistance := Some 0\<rparr>)))"

text \<open>
  \<^verbatim>\<open>_.flatten(dataMap)\<close>: the boxes in row-major order, each with its reference.
  The sort compares \<^verbatim>\<open>a.elevation - b.elevation\<close>; it is modelled by the stable
  insertion sort \<open>sort_key\<close>. Whether the sort of the engine is stable makes no difference
  to the result (\<open>solveMap_any_order\<close> below).
\<close>

definition flatten_refs :: "dataMap \<Rightarrow> (ref \<times> box) list" where
  "flatten_refs dataMap =
     concat (map (\<lambda>(r, row). map (\<lambda>(c, b). ((r, c), b)) (enumerate 0 row))
                 (enumerate 0 dataMap))"

definition boxesFromLowToHigh :: "dataMap \<Rightarrow> ref list" where
  "boxesFromLowToHigh dataMap =
     map fst (sort_key (\<lambda>(r, b). elevation b) (flatten_refs dataMap))"

text \<open>The first half of \<^verbatim>\<open>processMap\<close>: build the data map and process every box, lowest first.\<close>

definition solveMap :: "int list list \<Rightarrow> error + dataMap" where
  "solveMap mountainMap =
     (let dataMap = createDataMap mountainMap
      in forEach processBox (boxesFromLowToHigh dataMap) dataMap)"

section \<open>Path enumerator\<close>

text \<open>
  One step of the scan of \<^verbatim>\<open>findBestStartPoints\<close>; the state is \<^verbatim>\<open>bestDistance\<close> and
  \<^verbatim>\<open>bestStartPoints\<close>. Both comparisons are false for a box without \<^verbatim>\<open>maxDistance\<close>.
\<close>

definition bestStep :: "box \<Rightarrow> int \<times> box list \<Rightarrow> int \<times> box list" where
  "bestStep b st =
     (let bestDistance = fst st;
          bestStartPoints = (if js_gt (maxDistance b) (Some bestDistance) then [] else snd st)
      in if js_ge (maxDistance b) (Some bestDistance)
         then (case maxDistance b of
                 Some m \<Rightarrow> (m, bestStartPoints @ [b])
               | None \<Rightarrow> (bestDistance, bestStartPoints))
         else (bestDistance, bestStartPoints))"

definition findBestStartPoints :: "dataMap \<Rightarrow> box list" where
  "findBestStartPoints dataMap = snd (fold (\<lambda>row st. fold bestStep row st) dataMap (-1, []))"

text \<open>
  Running a function that returns a list of paths, or throws, or does not return, over a
  list and concatenating what it returns: \<^verbatim>\<open>_.flatten(xs.map(f), true)\<close>, and the two nested
  \<^verbatim>\<open>forEach\<close> of \<^verbatim>\<open>getGoodPathsFromStartPoints\<close>. \<open>None\<close> is a call that does not return.
\<close>

fun collectPaths :: "('a \<Rightarrow> (error + 'p list) option) \<Rightarrow> 'a list \<Rightarrow> (error + 'p list) option" where
  "collectPaths f [] = Some (Inr [])"
| "collectPaths f (a # as) =
     (case f a of
        None \<Rightarrow> None
      | Some (Inl e) \<Rightarrow> Some (Inl e)
      | Some (Inr ps) \<Rightarrow>
          (case collectPaths f as of
             None \<Rightarrow> None
           | Some (Inl e) \<Rightarrow> Some (Inl e)
           | Some (Inr qs) \<Rightarrow> Some (Inr (ps @ qs))))"

lemma collectPaths_mono [partial_function_mono]:
  fixes F :: "('b \<Rightarrow> 'c option) \<Rightarrow> 'a \<Rightarrow> (error + 'p list) option"
  assumes "\<And>a. mono_option (\<lambda>f. F f a)"
  shows "mono_option (\<lambda>f. collectPaths (F f) as)"
proof (rule monotoneI)
  fix f g :: "'b \<Rightarrow> 'c option"
  assume fg: "fun_ord option_ord f g"
  have "option_ord (F f a) (F g a)" for a
    using assms[of a] fg by (rule monotoneD[of _ _ _ f g])
  then have step: "F f a = None \<or> F f a = F g a" for a
    by (auto simp: flat_ord_def)
  have "collectPaths (F f) as = None \<or> collectPaths (F f) as = collectPaths (F g) as"
  proof (induction as)
    case Nil
    show ?case by simp
  next
    case (Cons a as)
    show ?case
    proof (cases "F f a = None")
      case True
      then show ?thesis by simp
    next
      case False
      with step[of a] have eq: "F f a = F g a" by simp
      show ?thesis
      proof (cases "collectPaths (F f) as = None")
        case True
        then show ?thesis by (simp add: eq[symmetric] split: option.splits sum.splits)
      next
        case False
        with Cons have eq2: "collectPaths (F f) as = collectPaths (F g) as" by simp
        show ?thesis unfolding collectPaths.simps eq eq2 by simp
      qed
    qed
  qed
  then show "option_ord (collectPaths (F f) as) (collectPaths (F g) as)"
    by (auto simp: flat_ord_def)
qed

text \<open>
  \<^verbatim>\<open>getGoodPathsFromBox\<close> of \<^verbatim>\<open>src/unnamed/part_000\<close>. The box given may be \<^verbatim>\<open>undefined\<close>
  (a direction that leads off the map), and then reading \<^verbatim>\<open>box.goodDirections\<close> throws.
  An array is truthy, so every box that has \<^verbatim>\<open>goodDirections\<close> takes the first branch.
  \<^verbatim>\<open>_.flatten([box, onePathFromNeighbour])\<close> puts the box in front of the neighbour's path.
  Nothing in the function itself bounds the recursion.
\<close>

partial_function (option) getGoodPathsFromBox ::
    "dataMap \<Rightarrow> box option \<Rightarrow> (error + box list list) option" where
  "getGoodPathsFromBox dataMap ob =
     (case ob of
        None \<Rightarrow> Some (Inl TypeError)
      | Some b \<Rightarrow>
          (case goodDirections b of
             Some ds \<Rightarrow>
               collectPaths
                 (\<lambda>direction.
                    Option.bind
                      (getGoodPathsFromBox dataMap (getNeighbourInDirection dataMap b direction))
                      (\<lambda>pathsFromNeighbour.
                         Some (map_sum id (map (\<lambda>onePathFromNeighbour. b # onePathFromNeighbour))
                                 pathsFromNeighbour)))
                 ds
           | None \<Rightarrow> Some (Inr [[b]])))"

declare getGoodPathsFromBox.simps [code]

definition getGoodPathsFromStartPoints ::
    "dataMap \<Rightarrow> box list \<Rightarrow> (error + box list list) option" where
  "getGoodPathsFromStartPoints dataMap startPoints =
     collectPaths (\<lambda>startPoint. getGoodPathsFromBox dataMap (Some startPoint)) startPoints"

section \<open>Steepness selector\<close>

text \<open>
  JavaScript numbers are IEEE 754 doubles. An elevation of the model is an integer that is
  such a double. Comparing two of them is exact, and the sign of their difference survives
  rounding, which is all that the comparator of the sort uses; \<^verbatim>\<open>maxDistance + 1\<close> counts
  cells and is exact. The one operation whose rounding shows is the subtraction in
  \<^verbatim>\<open>addSteepness\<close>: its result is the double nearest to the exact difference, a tie going to
  the even significand, and an infinity where that is beyond the greatest double.
\<close>

datatype jsnum = MinusInfinity | Finite int | PlusInfinity

text \<open>The number of binary digits of a positive integer; 0 for the others.\<close>

function bitlen :: "int \<Rightarrow> nat" where
  "bitlen n = (if n \<le> 0 then 0 else Suc (bitlen (n div 2)))"
  by pat_completeness auto

termination bitlen
  by (relation "measure nat") auto

declare bitlen.simps [simp del]

text \<open>
  Rounding a non-negative integer to 53 significant binary digits, to nearest and a tie to
  even, the exponent not bounded. An integer of at most 53 digits, one below \<open>2^53\<close>, is a
  double.
\<close>

definition round53 :: "int \<Rightarrow> int" where
  "round53 m =
     (if bitlen m \<le> 53 then m
      else let u = 2 ^ (bitlen m - 53); q = m div u; r = m mod u
           in (if 2 * r < u \<or> (2 * r = u \<and> q mod 2 = 0) then q else q + 1) * u)"

text \<open>
  \<^verbatim>\<open>a - b\<close> on two doubles that are integers. The greatest double is below \<open>2^1024\<close>: a
  rounded magnitude of more than 1024 digits is an infinity.
\<close>

definition js_minus :: "int \<Rightarrow> int \<Rightarrow> jsnum" where
  "js_minus a b =
     (let n = a - b; m = round53 \<bar>n\<bar>
      in if bitlen m > 1024 then (if n < 0 then MinusInfinity else PlusInfinity)
         else Finite (if n < 0 then - m else m))"

text \<open>\<^verbatim>\<open>a < b\<close> on such results.\<close>

fun js_less :: "jsnum \<Rightarrow> jsnum \<Rightarrow> bool" where
  "js_less (Finite a) (Finite b) = (a < b)"
| "js_less MinusInfinity MinusInfinity = False"
| "js_less MinusInfinity _ = True"
| "js_less _ MinusInfinity = False"
| "js_less PlusInfinity _ = False"
| "js_less _ PlusInfinity = True"

text \<open>
  \<^verbatim>\<open>addSteepness\<close> stores the drop of a path in a property of the array: a path with its
  steepness is the record \<open>spath\<close>. On an empty array \<^verbatim>\<open>path[0]\<close> is \<^verbatim>\<open>undefined\<close> and
  reading its elevation throws.
\<close>

record 'p spath =
  cells :: "'p"
  steepness :: jsnum

definition addSteepness :: "box list \<Rightarrow> error + box list spath" where
  "addSteepness path =
     (case path of
        [] \<Rightarrow> Inl TypeError
      | startBox # _ \<Rightarrow>
          let endBox = last path
          in Inr \<lparr>cells = path, steepness = js_minus (elevation startBox) (elevation endBox)\<rparr>)"

text \<open>\<^verbatim>\<open>potentialPaths.forEach(addSteepness)\<close>: stops at the first path that throws.\<close>

fun addSteepnessAll :: "box list list \<Rightarrow> error + box list spath list" where
  "addSteepnessAll [] = Inr []"
| "addSteepnessAll (p # ps) =
     (case addSteepness p of
        Inl e \<Rightarrow> Inl e
      | Inr sp \<Rightarrow> (case addSteepnessAll ps of Inl e \<Rightarrow> Inl e | Inr sps \<Rightarrow> Inr (sp # sps)))"

text \<open>
  \<^verbatim>\<open>_.max\<close> of a list of numbers starts from \<^verbatim>\<open>-Infinity\<close> and keeps the greater value;
  on an empty list the result is \<^verbatim>\<open>-Infinity\<close>.
\<close>

definition underscore_max :: "jsnum list \<Rightarrow> jsnum" where
  "underscore_max ns =
     fold (\<lambda>n result. if js_less result n then n else result) ns MinusInfinity"

definition selectPathsWithGreatestSteepness ::
    "box list list \<Rightarrow> error + box list spath list" where
  "selectPathsWithGreatestSteepness potentialPaths =
     (case addSteepnessAll potentialPaths of
        Inl e \<Rightarrow> Inl e
      | Inr paths \<Rightarrow>
          let greatestSteepness = underscore_max (map steepness paths)
          in Inr (filter (\<lambda>p. steepness p = greatestSteepness) paths))"

section \<open>The pipeline\<close>

text \<open>
  \<^verbatim>\<open>processMap\<close> of \<^verbatim>\<open>src/unnamed/part_000\<close>. What it prints is the list \<^verbatim>\<open>steepestPaths\<close>,
  each path with its length and drop; that list is the result of the model.
\<close>

definition processMap :: "int list list \<Rightarrow> (error + box list spath list) option" where
  "processMap mountainMap =
     (case solveMap mountainMap of
        Inl e \<Rightarrow> Some (Inl e)
      | Inr dataMap \<Rightarrow>
          let bestStartPoints = findBestStartPoints dataMap
          in (case getGoodPathsFromStartPoints dataMap bestStartPoints of
                None \<Rightarrow> None
              | Some (Inl e) \<Rightarrow> Some (Inl e)
              | Some (Inr potentialPaths) \<Rightarrow>
                  Some (selectPathsWithGreatestSteepness potentialPaths)))"

section \<open>The copy in \<^verbatim>\<open>src/find_longest_route.js\<close>\<close>

text \<open>
  \<^verbatim>\<open>createDataMap\<close>, \<^verbatim>\<open>getBoxAt\<close>, \<^verbatim>\<open>getNeighbourInDirection\<close>, \<^verbatim>\<open>processBox\<close>,
  \<^verbatim>\<open>findBestStartPoints\<close> and the sort compute the same in both files. The path enumerator
  differs: its last branch returns \<^verbatim>\<open>[ box ]\<close>, a list whose one element is the box itself
  and not an array holding it, and it takes that branch also for an \<^verbatim>\<open>undefined\<close> box. So an
  element of a list of paths is either a bare value or an array, and an array may hold
  \<^verbatim>\<open>undefined\<close>.
\<close>

datatype entry = Bare "box option" | Route "box option list"

text \<open>\<^verbatim>\<open>_.flatten([box, onePathFromNeighbour])\<close>\<close>

definition flatten_pair :: "box \<Rightarrow> entry \<Rightarrow> box option list" where
  "flatten_pair b onePathFromNeighbour =
     (case onePathFromNeighbour of
        Bare ob \<Rightarrow> [Some b, ob]
      | Route p \<Rightarrow> Some b # p)"

partial_function (option) getGoodPathsFromBox_flr ::
    "dataMap \<Rightarrow> box option \<Rightarrow> (error + entry list) option" where
  "getGoodPathsFromBox_flr dataMap ob =
     (case ob of
        None \<Rightarrow> Some (Inr [Bare None])
      | Some b \<Rightarrow>
          (case goodDirections b of
             None \<Rightarrow> Some (Inr [Bare (Some b)])
           | Some ds \<Rightarrow>
               if length ds > 0 then
                 collectPaths
                   (\<lambda>direction.
                      Option.bind
                        (getGoodPathsFromBox_flr dataMap
                           (getNeighbourInDirection dataMap b direction))
                        (\<lambda>pathsFromNeighbour.
                           Some (map_sum id
                                   (map (\<lambda>onePathFromNeighbour.
                                           Route (flatten_pair b onePathFromNeighbour)))
                                   pathsFromNeighbour)))
                   ds
               else Some (Inr [Bare (Some b)])))"

declare getGoodPathsFromBox_flr.simps [code]

definition getGoodPathsFromStartPoints_flr ::
    "dataMap \<Rightarrow> box list \<Rightarrow> (error + entry list) option" where
  "getGoodPathsFromStartPoints_flr dataMap startPoints =
     collectPaths (\<lambda>startPoint. getGoodPathsFromBox_flr dataMap (Some startPoint)) startPoints"

text \<open>
  \<^verbatim>\<open>addSteepness\<close> on such an element. A box has no property \<^verbatim>\<open>0\<close>, so for a bare box
  \<^verbatim>\<open>path[0]\<close> is \<^verbatim>\<open>undefined\<close> and \<^verbatim>\<open>startBox.elevation\<close> throws; on \<^verbatim>\<open>undefined\<close> already
  \<^verbatim>\<open>path[0]\<close> throws.
\<close>

definition addSteepness_flr :: "entry \<Rightarrow> error + entry spath" where
  "addSteepness_flr path =
     (case path of
        Bare _ \<Rightarrow> Inl TypeError
      | Route p \<Rightarrow>
          (case p of
             [] \<Rightarrow> Inl TypeError
           | startBox # _ \<Rightarrow>
               (case (startBox, last p) of
                  (Some s, Some e) \<Rightarrow>
                    Inr \<lparr>cells = path, steepness = js_minus (elevation s) (elevation e)\<rparr>
                | _ \<Rightarrow> Inl TypeError)))"

fun addSteepnessAll_flr :: "entry list \<Rightarrow> error + entry spath list" where
  "addSteepnessAll_flr [] = Inr []"
| "addSteepnessAll_flr (p # ps) =
     (case addSteepness_flr p of
        Inl e \<Rightarrow> Inl e
      | Inr sp \<Rightarrow> (case addSteepnessAll_flr ps of Inl e \<Rightarrow> Inl e | Inr sps \<Rightarrow> Inr (sp # sps)))"

definition selectPathsWithGreatestSteepness_flr :: "entry list \<Rightarrow> error + entry spath list" where
  "selectPathsWithGreatestSteepness_flr potentialPaths =
     (case addSteepnessAll_flr potentialPaths of
        Inl e \<Rightarrow> Inl e
      | Inr paths \<Rightarrow>
          let greatestSteepness = underscore_max (map steepness paths)
          in Inr (filter (\<lambda>p. steepness p = greatestSteepness) paths))"

text \<open>
  \<^verbatim>\<open>processMap\<close> of \<^verbatim>\<open>src/find_longest_route.js\<close>. It ends by reading
  \<^verbatim>\<open>steepestPaths[0].length\<close>, which throws when the list is empty.
\<close>

definition processMap_flr :: "int list list \<Rightarrow> (error + entry spath list) option" where
  "processMap_flr mountainMap =
     (case solveMap mountainMap of
        Inl e \<Rightarrow> Some (Inl e)
      | Inr dataMap \<Rightarrow>
          let bestStartPoints = findBestStartPoints dataMap
          in (case getGoodPathsFromStartPoints_flr dataMap bestStartPoints of
                None \<Rightarrow> None
              | Some (Inl e) \<Rightarrow> Some (Inl e)
              | Some (Inr potentialPaths) \<Rightarrow>
                  (case selectPathsWithGreatestSteepness_flr potentialPaths of
                     Inl e \<Rightarrow> Some (Inl e)
                   | Inr steepestPaths \<Rightarrow>
                       (case steepestPaths of
                          [] \<Rightarrow> Some (Inl TypeError)
                        | steepestPath # _ \<Rightarrow> Some (Inr steepestPaths)))))"

section \<open>What the results are compared with\<close>

text \<open>
  A descending path in a data map, as the specification words it: a sequence of at least one
  cell of the map in which each cell is followed by one of its four neighbours, of strictly
  lower elevation.
\<close>

definition adjacent :: "box \<Rightarrow> box \<Rightarrow> bool" where
  "adjacent a b \<longleftrightarrow> (x b - x a, y b - y a) \<in> set DIRECTIONS"

fun descendingPath :: "dataMap \<Rightarrow> box list \<Rightarrow> bool" where
  "descendingPath dataMap [] = False"
| "descendingPath dataMap [a] = (getBoxAt dataMap (x a) (y a) = Some a)"
| "descendingPath dataMap (a # b # p) =
     (getBoxAt dataMap (x a) (y a) = Some a \<and> adjacent a b \<and> elevation b < elevation a \<and>
      descendingPath dataMap (b # p))"

text \<open>The elevations along the paths of a result: what the program prints of them.\<close>

definition elevationsOf :: "box list spath list \<Rightarrow> (int list \<times> jsnum) list" where
  "elevationsOf ps = map (\<lambda>p. (map elevation (cells p), steepness p)) ps"

text \<open>
  The directions a box holds. A box for which \<^verbatim>\<open>processBox\<close> found no way down has no
  \<^verbatim>\<open>goodDirections\<close> property at all: it holds no direction.
\<close>

definition directionsOf :: "box \<Rightarrow> direction list" where
  "directionsOf b = (case goodDirections b of None \<Rightarrow> [] | Some ds \<Rightarrow> ds)"

text \<open>The directions in which a box has a neighbour of strictly lower elevation.\<close>

definition descendingDirections :: "dataMap \<Rightarrow> box \<Rightarrow> direction list" where
  "descendingDirections dataMap b =
     filter (\<lambda>d. case getNeighbourInDirection dataMap b d of
                    None \<Rightarrow> False
                  | Some n \<Rightarrow> elevation n < elevation b)
            DIRECTIONS"

text \<open>\<^verbatim>\<open>neighbor.maxDistance\<close> for the neighbours reached by the directions a box holds.\<close>

definition neighbourDistances :: "dataMap \<Rightarrow> box \<Rightarrow> int option list" where
  "neighbourDistances dataMap b =
     map (\<lambda>d. case getNeighbourInDirection dataMap b d of
                 None \<Rightarrow> None
               | Some n \<Rightarrow> maxDistance n)
         (directionsOf b)"

text \<open>The greatest \<^verbatim>\<open>maxDistance\<close> of a data map: the specification's \<^verbatim>\<open>bestDistance\<close>.\<close>

definition bestDistance :: "dataMap \<Rightarrow> int" where
  "bestDistance dataMap = Max (set (List.map_filter maxDistance (concat dataMap)))"

text \<open>The steepness of a path: first cell's elevation minus last cell's elevation.\<close>

definition pathSteepness :: "box list \<Rightarrow> int" where
  "pathSteepness p = elevation (hd p) - elevation (last p)"

text \<open>
  The steepness of a path as the program computes it: the subtraction of the last cell's
  elevation from the first cell's, in doubles.
\<close>

definition jsSteepness :: "box list \<Rightarrow> jsnum" where
  "jsSteepness p = js_minus (elevation (hd p)) (elevation (last p))"

section \<open>Auxiliary notions for the proofs\<close>

text \<open>
  What one round of the \<^verbatim>\<open>forEach\<close> in \<^verbatim>\<open>processBox\<close> does to the box, as a function of the
  box and of the neighbour found in that direction: the body of \<open>processDirection\<close> without
  the store.
\<close>

definition stepBox :: "box \<Rightarrow> box option \<Rightarrow> direction \<Rightarrow> error + box" where
  "stepBox b nb direction =
     (case nb of
        None \<Rightarrow> Inr b
      | Some neighbour \<Rightarrow>
          if elevation neighbour < elevation b then
            let distanceViaNeighbour = map_option (\<lambda>d. d + 1) (maxDistance neighbour);
                b1 = (if js_gt distanceViaNeighbour (maxDistance b)
                      then b\<lparr>goodDirections := Some [], maxDistance := distanceViaNeighbour\<rparr>
                      else b)
            in if js_ge distanceViaNeighbour (maxDistance b1)
               then (case goodDirections b1 of
                       None \<Rightarrow> Inl TypeError
                     | Some ds \<Rightarrow> Inr (b1\<lparr>goodDirections := Some (ds @ [direction])\<rparr>))
               else Inr b1
          else Inr b)"

text \<open>The rounds for a list of directions, the neighbours given by a function.\<close>

fun stepAll :: "(direction \<Rightarrow> box option) \<Rightarrow> direction list \<Rightarrow> box \<Rightarrow> error + box" where
  "stepAll nb [] b = Inr b"
| "stepAll nb (d # ds) b = (case stepBox b (nb d) d of Inl e \<Rightarrow> Inl e | Inr b' \<Rightarrow> stepAll nb ds b')"

text \<open>
  \<^verbatim>\<open>distanceViaNeighbour\<close> where a round uses it: the neighbour exists, is strictly lower and
  has a \<^verbatim>\<open>maxDistance\<close>. \<open>None\<close> where the round leaves the box as it is.
\<close>

definition candidate :: "box \<Rightarrow> box option \<Rightarrow> int option" where
  "candidate b nb =
     (case nb of
        None \<Rightarrow> None
      | Some n \<Rightarrow> if elevation n < elevation b then map_option (\<lambda>d. d + 1) (maxDistance n) else None)"

text \<open>
  The state of a box once the directions \<open>pre\<close> have been examined, \<open>c\<close> giving the candidate
  distance of each direction: \<^verbatim>\<open>maxDistance\<close> bounds every candidate seen; with no candidate
  seen it is 0 and \<^verbatim>\<open>goodDirections\<close> is still undefined; otherwise it is attained and
  \<^verbatim>\<open>goodDirections\<close> lists, in order, the directions seen that attain it.
\<close>

definition scanned :: "(direction \<Rightarrow> int option) \<Rightarrow> direction list \<Rightarrow> box \<Rightarrow> bool" where
  "scanned c pre b \<longleftrightarrow>
     (\<exists>m. maxDistance b = Some m \<and> (\<forall>d\<in>set pre. \<forall>k. c d = Some k \<longrightarrow> k \<le> m) \<and>
        (if \<forall>d\<in>set pre. c d = None then m = 0 \<and> goodDirections b = None
         else (\<exists>d\<in>set pre. c d = Some m) \<and>
              goodDirections b = Some (filter (\<lambda>d. c d = Some m) pre)))"

text \<open>The candidate distance of a direction, read from the data map.\<close>

definition distanceVia :: "dataMap \<Rightarrow> box \<Rightarrow> direction \<Rightarrow> int option" where
  "distanceVia dm b d = candidate b (getNeighbourInDirection dm b d)"

text \<open>
  A box is solved when it is in the state that follows the examination of all four directions
  and each of its lower neighbours has a \<^verbatim>\<open>maxDistance\<close>, not negative.
\<close>

definition boxSolved :: "dataMap \<Rightarrow> box \<Rightarrow> bool" where
  "boxSolved dm b \<longleftrightarrow>
     scanned (distanceVia dm b) DIRECTIONS b \<and>
     (\<forall>d\<in>set DIRECTIONS. \<forall>n. getNeighbourInDirection dm b d = Some n \<longrightarrow>
        elevation n < elevation b \<longrightarrow> (\<exists>k. maxDistance n = Some k \<and> 0 \<le> k))"

text \<open>Every box records its own place: \<^verbatim>\<open>dataMap[y][x]\<close> has coordinates \<open>x\<close> and \<open>y\<close>.\<close>

definition coordsOk :: "dataMap \<Rightarrow> bool" where
  "coordsOk dm \<longleftrightarrow> (\<forall>r b. deref dm r = Some b \<longrightarrow> x b = int (snd r) \<and> y b = int (fst r))"

text \<open>
  The invariant of the loop over \<^verbatim>\<open>boxesFromLowToHigh\<close>: the boxes at the references \<open>P\<close>
  have been processed and are solved, the others are as \<^verbatim>\<open>createDataMap\<close> made them.
\<close>

definition partlySolved :: "dataMap \<Rightarrow> ref set \<Rightarrow> bool" where
  "partlySolved dm P \<longleftrightarrow>
     coordsOk dm \<and>
     (\<forall>r b. deref dm r = Some b \<longrightarrow>
        (if r \<in> P then boxSolved dm b else maxDistance b = None \<and> goodDirections b = None))"

text \<open>The properties of a box that are fixed at creation.\<close>

definition static :: "box \<Rightarrow> int \<times> int \<times> int" where
  "static b = (x b, y b, elevation b)"

text \<open>Two data maps of the same shape whose boxes agree on these properties.\<close>

definition sameStatic :: "dataMap \<Rightarrow> dataMap \<Rightarrow> bool" where
  "sameStatic dm dm' \<longleftrightarrow> (\<forall>r. map_option static (deref dm' r) = map_option static (deref dm r))"

text \<open>The elevation of the box a reference leads to: the key of the sort.\<close>

definition elevAt :: "dataMap \<Rightarrow> ref \<Rightarrow> int" where
  "elevAt dm r = (case deref dm r of Some b \<Rightarrow> elevation b | None \<Rightarrow> 0)"

text \<open>A solved data map: coordinates in place and every box solved.\<close>

definition solved :: "dataMap \<Rightarrow> bool" where
  "solved dm \<longleftrightarrow> coordsOk dm \<and> (\<forall>r b. deref dm r = Some b \<longrightarrow> boxSolved dm b)"

text \<open>
  How the enumerator of \<^verbatim>\<open>src/find_longest_route.js\<close> returns a path of boxes: a path of one
  cell as the bare box, a longer one as an array.
\<close>

definition entryOf :: "box list \<Rightarrow> entry" where
  "entryOf p = (case p of [c] \<Rightarrow> Bare (Some c) | _ \<Rightarrow> Route (map Some p))"

text \<open>The same for a path with its steepness.\<close>

definition asEntry :: "box list spath \<Rightarrow> entry spath" where
  "asEntry sp = \<lparr>cells = entryOf (cells sp), steepness = steepness sp\<rparr>"

section \<open>The store\<close>

lemma deref_assign:
  "deref dm r = Some b0 \<Longrightarrow> deref (assign dm r b) r' = (if r' = r then Some b else deref dm r')"
  by (cases r; cases r') (auto simp: deref_def assign_def nth_list_update split: if_splits)

lemma assign_same: "deref dm r = Some b \<Longrightarrow> assign dm r b = dm"
  by (auto simp: deref_def assign_def split: if_splits)

lemma assign_assign: "assign (assign dm r b1) r b2 = assign dm r b2"
  by (cases "fst r < length dm") (auto simp: assign_def list_update_beyond)

lemma getBoxAt_deref:
  "getBoxAt dm cx cy = (if 0 \<le> cx \<and> 0 \<le> cy then deref dm (nat cy, nat cx) else None)"
  by (auto simp: getBoxAt_def deref_def js_index_def split: option.splits)

lemma getBoxAt_assign:
  assumes "deref dm r = Some b0"
  shows "getBoxAt (assign dm r b') cx cy =
     (if 0 \<le> cx \<and> 0 \<le> cy \<and> (nat cy, nat cx) = r then Some b' else getBoxAt dm cx cy)"
  using deref_assign[OF assms] by (auto simp: getBoxAt_deref)

lemma getBoxAt_Some_deref:
  assumes "getBoxAt dm cx cy = Some b"
  shows "\<exists>r. deref dm r = Some b \<and> cx = int (snd r) \<and> cy = int (fst r)"
proof -
  from assms have "0 \<le> cx" "0 \<le> cy" "deref dm (nat cy, nat cx) = Some b"
    by (auto simp: getBoxAt_deref split: if_splits)
  then show ?thesis by (intro exI[of _ "(nat cy, nat cx)"]) simp
qed

lemma neighbour_deref:
  "getNeighbourInDirection dm b d = Some n \<Longrightarrow> \<exists>r. deref dm r = Some n"
  by (auto simp: getNeighbourInDirection_def getBoxAt_deref split: if_splits)

lemma neighbour_assign_self:
  assumes "deref dm r = Some b0" "x b = int (snd r)" "y b = int (fst r)" "d \<noteq> (0, 0)"
  shows "getNeighbourInDirection (assign dm r b') b d = getNeighbourInDirection dm b d"
proof -
  have "\<not> (0 \<le> x b + fst d \<and> 0 \<le> y b + snd d \<and> (nat (y b + snd d), nat (x b + fst d)) = r)"
    using assms(2-4) by (cases r; cases d) auto
  then show ?thesis
    unfolding getNeighbourInDirection_def getBoxAt_assign[OF assms(1)] by auto
qed

lemma neighbour_assign_cases:
  assumes "deref dm r = Some b0"
  shows "getNeighbourInDirection (assign dm r b') b1 d = getNeighbourInDirection dm b1 d \<or>
         (getNeighbourInDirection dm b1 d = Some b0 \<and>
          getNeighbourInDirection (assign dm r b') b1 d = Some b')"
proof (cases "0 \<le> x b1 + fst d \<and> 0 \<le> y b1 + snd d \<and> (nat (y b1 + snd d), nat (x b1 + fst d)) = r")
  case True
  then have "getBoxAt dm (x b1 + fst d) (y b1 + snd d) = Some b0"
    using assms by (auto simp: getBoxAt_deref)
  with True show ?thesis
    by (simp add: getNeighbourInDirection_def getBoxAt_assign[OF assms])
next
  case False
  then show ?thesis
    unfolding getNeighbourInDirection_def getBoxAt_assign[OF assms] by auto
qed

lemma set_concat_deref: "b \<in> set (concat dm) \<longleftrightarrow> (\<exists>r. deref dm r = Some b)"
proof
  assume "b \<in> set (concat dm)"
  then obtain row where "row \<in> set dm" "b \<in> set row" by auto
  then obtain i j where "i < length dm" "row = dm ! i" "j < length row" "b = row ! j"
    by (metis in_set_conv_nth)
  then have "deref dm (i, j) = Some b" by (simp add: deref_def)
  then show "\<exists>r. deref dm r = Some b" by blast
next
  assume "\<exists>r. deref dm r = Some b"
  then obtain r where "deref dm r = Some b" by blast
  then have "fst r < length dm" "snd r < length (dm ! fst r)" "b = dm ! fst r ! snd r"
    by (auto simp: deref_def split: if_splits)
  then have "dm ! fst r \<in> set dm" "b \<in> set (dm ! fst r)" by simp_all
  then show "b \<in> set (concat dm)" by auto
qed

section \<open>One box: the scan of its four directions\<close>

lemma processDirection_stepBox:
  assumes "deref dm r = Some b"
  shows "processDirection r d dm =
     (case stepBox b (getNeighbourInDirection dm b d) d of
        Inl e \<Rightarrow> Inl e | Inr b' \<Rightarrow> Inr (assign dm r b'))"
  using assms assign_same[OF assms]
  by (auto simp: processDirection_def stepBox_def Let_def split: option.splits)

lemma stepBox_None: "candidate b nb = None \<Longrightarrow> stepBox b nb d = Inr b"
  by (auto simp: candidate_def stepBox_def js_gt_def js_ge_def Let_def split: option.splits if_splits)

lemma stepBox_Some:
  "candidate b nb = Some k \<Longrightarrow> maxDistance b = Some m \<Longrightarrow>
   stepBox b nb d =
     (if k > m then Inr (b\<lparr>goodDirections := Some [d], maxDistance := Some k\<rparr>)
      else if k = m then (case goodDirections b of None \<Rightarrow> Inl TypeError
                          | Some ds \<Rightarrow> Inr (b\<lparr>goodDirections := Some (ds @ [d])\<rparr>))
      else Inr b)"
  by (auto simp: candidate_def stepBox_def js_gt_def js_ge_def Let_def split: option.splits if_splits)

lemma stepBox_static:
  "stepBox b nb d = Inr b' \<Longrightarrow> x b' = x b \<and> y b' = y b \<and> elevation b' = elevation b"
  by (auto simp: stepBox_def Let_def split: option.splits if_splits)

lemma stepAll_cong:
  "\<forall>d\<in>set ds. nb d = nb' d \<Longrightarrow> stepAll nb ds b = stepAll nb' ds b"
  by (induction ds arbitrary: b) (auto split: sum.splits)

lemma candidate_static: "elevation b' = elevation b \<Longrightarrow> candidate b' nb = candidate b nb"
  by (simp add: candidate_def split: option.splits)

lemma candidate_Some:
  "candidate b nb = Some k \<longleftrightarrow>
     (\<exists>n. nb = Some n \<and> elevation n < elevation b \<and> maxDistance n = Some (k - 1))"
  by (auto simp: candidate_def split: option.splits)

lemma scanned_cong:
  "\<forall>d\<in>set pre. c d = c' d \<Longrightarrow> scanned c pre b = scanned c' pre b"
  unfolding scanned_def
  by (intro ex_cong1 conj_cong if_cong ball_cong bex_cong arg_cong[where f=Some] filter_cong refl
      arg_cong2[where f="(=)"]) auto

lemma scanned_step:
  assumes sc: "scanned c pre b" and cd: "c d = candidate b nb" and pos: "\<forall>k. c d = Some k \<longrightarrow> 1 \<le> k"
  shows "\<exists>b'. stepBox b nb d = Inr b' \<and> scanned c (pre @ [d]) b' \<and>
           x b' = x b \<and> y b' = y b \<and> elevation b' = elevation b"
proof -
  from sc obtain m where m: "maxDistance b = Some m"
    and le: "\<forall>d\<in>set pre. \<forall>k. c d = Some k \<longrightarrow> k \<le> m"
    and g: "if \<forall>d\<in>set pre. c d = None then m = 0 \<and> goodDirections b = None
         else (\<exists>d\<in>set pre. c d = Some m) \<and>
              goodDirections b = Some (filter (\<lambda>d. c d = Some m) pre)"
    unfolding scanned_def by blast
  show ?thesis
  proof (cases "c d")
    case None
    then have "stepBox b nb d = Inr b" using cd by (simp add: stepBox_None)
    moreover have "scanned c (pre @ [d]) b"
      using m le g None unfolding scanned_def by (auto split: if_splits)
    ultimately show ?thesis by simp
  next
    case (Some k)
    then have k1: "1 \<le> k" using pos by simp
    have ck: "candidate b nb = Some k" using cd Some by simp
    consider "k > m" | "k = m" | "k < m" by linarith
    then show ?thesis
    proof cases
      case 1
      let ?b' = "b\<lparr>goodDirections := Some [d], maxDistance := Some k\<rparr>"
      have "stepBox b nb d = Inr ?b'" using stepBox_Some[OF ck m] 1 by simp
      moreover have "filter (\<lambda>d. c d = Some k) pre = []"
        using le 1 by (auto simp: filter_empty_conv)
      then have "scanned c (pre @ [d]) ?b'"
        using le 1 Some unfolding scanned_def by (auto simp: less_imp_le order_trans)
      ultimately show ?thesis by simp
    next
      case 2
      have ne: "\<not> (\<forall>d\<in>set pre. c d = None)"
        using g k1 2 by (auto split: if_splits)
      with g obtain ds where ds: "goodDirections b = Some ds" "ds = filter (\<lambda>d. c d = Some m) pre"
        by auto
      let ?b' = "b\<lparr>goodDirections := Some (ds @ [d])\<rparr>"
      have "stepBox b nb d = Inr ?b'" using stepBox_Some[OF ck m] 2 ds by simp
      moreover have "scanned c (pre @ [d]) ?b'"
        using le 2 Some m ds ne unfolding scanned_def by auto
      ultimately show ?thesis by simp
    next
      case 3
      have ne: "\<not> (\<forall>d\<in>set pre. c d = None)"
        using g k1 3 by (auto split: if_splits)
      have "stepBox b nb d = Inr b" using stepBox_Some[OF ck m] 3 by simp
      moreover have "scanned c (pre @ [d]) b"
        using le 3 Some m g ne unfolding scanned_def by auto
      ultimately show ?thesis by simp
    qed
  qed
qed

lemma scanned_stepAll:
  assumes "scanned c pre b"
    and "\<forall>d\<in>set ds. c d = candidate b (nb d) \<and> (\<forall>k. c d = Some k \<longrightarrow> 1 \<le> k)"
  shows "\<exists>b'. stepAll nb ds b = Inr b' \<and> scanned c (pre @ ds) b' \<and>
           x b' = x b \<and> y b' = y b \<and> elevation b' = elevation b"
  using assms
proof (induction ds arbitrary: pre b)
  case Nil
  then show ?case by simp
next
  case (Cons d ds)
  from Cons.prems have "c d = candidate b (nb d)" "\<forall>k. c d = Some k \<longrightarrow> 1 \<le> k" by auto
  from scanned_step[OF Cons.prems(1) this] obtain b1 where
    b1: "stepBox b (nb d) d = Inr b1" "scanned c (pre @ [d]) b1"
        "x b1 = x b" "y b1 = y b" "elevation b1 = elevation b" by blast
  have "\<forall>d\<in>set ds. c d = candidate b1 (nb d) \<and> (\<forall>k. c d = Some k \<longrightarrow> 1 \<le> k)"
    using Cons.prems(2) candidate_static[OF b1(5)] by simp
  from Cons.IH[OF b1(2) this] b1 show ?case by auto
qed

lemma forEach_processDirection:
  assumes "deref dm r = Some b" "x b = int (snd r)" "y b = int (fst r)" "(0, 0) \<notin> set ds"
  shows "forEach (processDirection r) ds dm =
     (case stepAll (getNeighbourInDirection dm b) ds b of
        Inl e \<Rightarrow> Inl e | Inr b' \<Rightarrow> Inr (assign dm r b'))"
  using assms
proof (induction ds arbitrary: dm b)
  case Nil
  then show ?case by (simp add: assign_same)
next
  case (Cons d ds)
  show ?case
  proof (cases "stepBox b (getNeighbourInDirection dm b d) d")
    case (Inl e)
    then show ?thesis using processDirection_stepBox[OF Cons.prems(1)] by simp
  next
    case (Inr b1)
    from stepBox_static[OF Inr] Cons.prems
    have st: "x b1 = int (snd r)" "y b1 = int (fst r)" by simp_all
    have d1: "deref (assign dm r b1) r = Some b1"
      using deref_assign[OF Cons.prems(1)] by simp
    have nb: "\<forall>d'\<in>set ds. getNeighbourInDirection (assign dm r b1) b1 d' =
                 getNeighbourInDirection dm b d'"
    proof
      fix d' assume "d' \<in> set ds"
      with Cons.prems(4) have "d' \<noteq> (0, 0)" by auto
      from neighbour_assign_self[OF Cons.prems(1) st this]
      show "getNeighbourInDirection (assign dm r b1) b1 d' = getNeighbourInDirection dm b d'"
        using stepBox_static[OF Inr] by (simp add: getNeighbourInDirection_def)
    qed
    have "forEach (processDirection r) ds (assign dm r b1) =
       (case stepAll (getNeighbourInDirection (assign dm r b1) b1) ds b1 of
          Inl e \<Rightarrow> Inl e | Inr b' \<Rightarrow> Inr (assign (assign dm r b1) r b'))"
      using Cons.IH[OF d1 st] Cons.prems(4) by simp
    also have "\<dots> = (case stepAll (getNeighbourInDirection dm b) ds b1 of
          Inl e \<Rightarrow> Inl e | Inr b' \<Rightarrow> Inr (assign dm r b'))"
      by (simp add: stepAll_cong[OF nb] assign_assign split: sum.splits)
    finally show ?thesis
      using processDirection_stepBox[OF Cons.prems(1)] Inr by simp
  qed
qed

lemma processBox_stepAll:
  assumes "deref dm r = Some b" "x b = int (snd r)" "y b = int (fst r)"
  shows "processBox r dm =
     (case stepAll (getNeighbourInDirection dm b) DIRECTIONS (b\<lparr>maxDistance := Some 0\<rparr>) of
        Inl e \<Rightarrow> Inl e | Inr b' \<Rightarrow> Inr (assign dm r b'))"
proof -
  let ?b0 = "b\<lparr>maxDistance := Some 0\<rparr>"
  let ?dm0 = "assign dm r ?b0"
  have d0: "deref ?dm0 r = Some ?b0" using deref_assign[OF assms(1)] by simp
  have z: "(0, 0) \<notin> set DIRECTIONS" by (simp add: DIRECTIONS_def)
  have nb: "\<forall>d\<in>set DIRECTIONS. getNeighbourInDirection ?dm0 ?b0 d = getNeighbourInDirection dm b d"
  proof
    fix d assume "d \<in> set DIRECTIONS"
    with z have "d \<noteq> (0, 0)" by auto
    from neighbour_assign_self[OF assms this]
    show "getNeighbourInDirection ?dm0 ?b0 d = getNeighbourInDirection dm b d"
      by (simp add: getNeighbourInDirection_def)
  qed
  have "processBox r dm = forEach (processDirection r) DIRECTIONS ?dm0"
    using assms(1) by (simp add: processBox_def)
  also have "\<dots> = (case stepAll (getNeighbourInDirection ?dm0 ?b0) DIRECTIONS ?b0 of
        Inl e \<Rightarrow> Inl e | Inr b' \<Rightarrow> Inr (assign ?dm0 r b'))"
    using forEach_processDirection[OF d0 _ _ z] assms(2,3) by simp
  finally show ?thesis by (simp add: stepAll_cong[OF nb] assign_assign split: sum.splits)
qed

section \<open>All boxes: the loop from low to high\<close>

text \<open>
  The lemmas below establish that the loop returns a solved data map on every input, for any
  order of the boxes that is ascending in elevation (\<open>solve_any_order\<close>), and so does
  \<open>solveMap\<close>.
\<close>

lemma boxSolved_nonneg:
  assumes "boxSolved dm b"
  shows "\<exists>m. maxDistance b = Some m \<and> 0 \<le> m"
proof -
  from assms obtain m where m: "maxDistance b = Some m"
    and g: "if \<forall>d\<in>set DIRECTIONS. distanceVia dm b d = None then m = 0 \<and> goodDirections b = None
         else (\<exists>d\<in>set DIRECTIONS. distanceVia dm b d = Some m) \<and>
              goodDirections b = Some (filter (\<lambda>d. distanceVia dm b d = Some m) DIRECTIONS)"
    unfolding boxSolved_def scanned_def by blast
  show ?thesis
  proof (cases "\<forall>d\<in>set DIRECTIONS. distanceVia dm b d = None")
    case True
    with g m show ?thesis by simp
  next
    case False
    with g obtain d where d: "d \<in> set DIRECTIONS" "distanceVia dm b d = Some m" by auto
    then obtain n where n: "getNeighbourInDirection dm b d = Some n" "elevation n < elevation b"
      "maxDistance n = Some (m - 1)"
      unfolding distanceVia_def candidate_Some by blast
    with assms d(1) have "0 \<le> m - 1" unfolding boxSolved_def by fastforce
    with m show ?thesis by simp
  qed
qed

lemma distanceVia_assign_other:
  assumes r: "deref dm r = Some b0" and st: "elevation b' = elevation b0"
    and nl: "elevation b1 \<le> elevation b0"
  shows "distanceVia (assign dm r b') b1 d = distanceVia dm b1 d"
  using neighbour_assign_cases[OF r, of b' b1 d] st nl
  by (auto simp: distanceVia_def candidate_def)

lemma coordsOkD: "coordsOk dm \<Longrightarrow> deref dm r = Some b \<Longrightarrow> x b = int (snd r) \<and> y b = int (fst r)"
  unfolding coordsOk_def by blast

lemma partlySolved_coords: "partlySolved dm P \<Longrightarrow> coordsOk dm"
  unfolding partlySolved_def by blast

lemma partlySolved_in:
  "partlySolved dm P \<Longrightarrow> deref dm r = Some b \<Longrightarrow> r \<in> P \<Longrightarrow> boxSolved dm b"
  unfolding partlySolved_def by meson

lemma partlySolved_out:
  "partlySolved dm P \<Longrightarrow> deref dm r = Some b \<Longrightarrow> r \<notin> P \<Longrightarrow>
     maxDistance b = None \<and> goodDirections b = None"
  unfolding partlySolved_def by meson

lemma processBox_step:
  assumes inv: "partlySolved dm P" and rP: "r \<notin> P" and rb: "deref dm r = Some b"
    and lowerDone: "\<forall>r' b'. deref dm r' = Some b' \<longrightarrow> elevation b' < elevation b \<longrightarrow> r' \<in> P"
    and notLower: "\<forall>r' b'. r' \<in> P \<longrightarrow> deref dm r' = Some b' \<longrightarrow> elevation b' \<le> elevation b"
  shows "\<exists>dm'. processBox r dm = Inr dm' \<and> partlySolved dm' (insert r P) \<and> sameStatic dm dm'"
proof -
  from coordsOkD[OF partlySolved_coords[OF inv] rb] have xy: "x b = int (snd r)" "y b = int (fst r)"
    by simp_all
  from partlySolved_out[OF inv rb rP] have fresh: "maxDistance b = None" "goodDirections b = None"
    by simp_all
  let ?b0 = "b\<lparr>maxDistance := Some 0\<rparr>"
  let ?c = "distanceVia dm b"
  let ?nb = "getNeighbourInDirection dm b"
  have lowerOk: "\<exists>k. maxDistance n = Some k \<and> 0 \<le> k"
    if "?nb d = Some n" "elevation n < elevation b" for d n
  proof -
    from neighbour_deref[OF that(1)] obtain r' where r': "deref dm r' = Some n" by blast
    with lowerDone that(2) have "r' \<in> P" by blast
    from boxSolved_nonneg[OF partlySolved_in[OF inv r' this]] show ?thesis .
  qed
  have sc0: "scanned ?c [] ?b0" using fresh by (simp add: scanned_def)
  have cands: "\<forall>d\<in>set DIRECTIONS. ?c d = candidate ?b0 (?nb d) \<and> (\<forall>k. ?c d = Some k \<longrightarrow> 1 \<le> k)"
  proof (intro ballI conjI allI impI)
    fix d show "?c d = candidate ?b0 (?nb d)"
      using candidate_static[of ?b0 b] by (simp add: distanceVia_def)
  next
    fix d k assume "?c d = Some k"
    then obtain n where n: "?nb d = Some n" "elevation n < elevation b" "maxDistance n = Some (k - 1)"
      unfolding distanceVia_def candidate_Some by blast
    from lowerOk[OF n(1,2)] n(3) show "1 \<le> k" by auto
  qed
  from scanned_stepAll[OF sc0 cands] obtain b' where
    b': "stepAll ?nb DIRECTIONS ?b0 = Inr b'" "scanned ?c DIRECTIONS b'"
        "x b' = x b" "y b' = y b" "elevation b' = elevation b" by auto
  let ?dm' = "assign dm r b'"
  have pb: "processBox r dm = Inr ?dm'"
    using processBox_stepAll[OF rb xy] b'(1) by simp
  have dr: "deref ?dm' r' = (if r' = r then Some b' else deref dm r')" for r'
    using deref_assign[OF rb] by simp
  have ss: "sameStatic dm ?dm'"
    unfolding sameStatic_def using rb b'(3-5) by (auto simp: dr static_def)
  have co: "coordsOk ?dm'"
    unfolding coordsOk_def
  proof (intro allI impI)
    fix r1 b1 assume "deref ?dm' r1 = Some b1"
    then show "x b1 = int (snd r1) \<and> y b1 = int (fst r1)"
      using coordsOkD[OF partlySolved_coords[OF inv], of r1 b1] xy b'(3,4)
      by (auto simp: dr split: if_splits)
  qed
  have z: "(0, 0) \<notin> set DIRECTIONS" by (simp add: DIRECTIONS_def)
  have nbself: "getNeighbourInDirection ?dm' b' d = ?nb d" if "d \<in> set DIRECTIONS" for d
  proof -
    from that z have "d \<noteq> (0, 0)" by auto
    from neighbour_assign_self[OF rb xy this]
    show ?thesis using b'(3,4) by (simp add: getNeighbourInDirection_def)
  qed
  have selfSolved: "boxSolved ?dm' b'"
  proof -
    have "\<forall>d\<in>set DIRECTIONS. distanceVia ?dm' b' d = ?c d"
      using nbself candidate_static[OF b'(5)] by (simp add: distanceVia_def)
    from scanned_cong[OF this] b'(2) have "scanned (distanceVia ?dm' b') DIRECTIONS b'" by simp
    moreover have "\<forall>d\<in>set DIRECTIONS. \<forall>n. getNeighbourInDirection ?dm' b' d = Some n \<longrightarrow>
        elevation n < elevation b' \<longrightarrow> (\<exists>k. maxDistance n = Some k \<and> 0 \<le> k)"
      using nbself lowerOk b'(5) by auto
    ultimately show ?thesis unfolding boxSolved_def by simp
  qed
  have otherSolved: "boxSolved ?dm' b1" if "r1 \<in> P" "deref dm r1 = Some b1" for r1 b1
  proof -
    from partlySolved_in[OF inv that(2,1)] have s1: "boxSolved dm b1" .
    from notLower that have le: "elevation b1 \<le> elevation b" by blast
    have "\<forall>d\<in>set DIRECTIONS. distanceVia dm b1 d = distanceVia ?dm' b1 d"
      using distanceVia_assign_other[OF rb b'(5) le] by simp
    from scanned_cong[OF this] s1
    have "scanned (distanceVia ?dm' b1) DIRECTIONS b1" unfolding boxSolved_def by simp
    moreover have "\<exists>k. maxDistance n = Some k \<and> 0 \<le> k"
      if d: "d \<in> set DIRECTIONS" and n: "getNeighbourInDirection ?dm' b1 d = Some n"
        and lt: "elevation n < elevation b1" for d n
    proof -
      from neighbour_assign_cases[OF rb, of b' b1 d]
      have "getNeighbourInDirection dm b1 d = Some n"
        using n lt le b'(5) by auto
      with s1 d lt show ?thesis unfolding boxSolved_def by blast
    qed
    ultimately show ?thesis unfolding boxSolved_def by blast
  qed
  have "partlySolved ?dm' (insert r P)"
    unfolding partlySolved_def
  proof (intro conjI allI impI)
    show "coordsOk ?dm'" by (rule co)
  next
    fix r1 b1 assume d1: "deref ?dm' r1 = Some b1"
    show "if r1 \<in> insert r P then boxSolved ?dm' b1
          else maxDistance b1 = None \<and> goodDirections b1 = None"
    proof (cases "r1 = r")
      case True
      with d1 have "b1 = b'" by (simp add: dr)
      with True selfSolved show ?thesis by simp
    next
      case False
      with d1 have d1': "deref dm r1 = Some b1" by (simp add: dr)
      show ?thesis
      proof (cases "r1 \<in> P")
        case True
        with otherSolved[OF True d1'] show ?thesis by simp
      next
        case nP: False
        with partlySolved_out[OF inv d1'] False show ?thesis by simp
      qed
    qed
  qed
  with pb ss show ?thesis by blast
qed

lemma sameStatic_refl: "sameStatic dm dm"
  by (simp add: sameStatic_def)

lemma sameStatic_trans: "sameStatic a b \<Longrightarrow> sameStatic b c \<Longrightarrow> sameStatic a c"
  by (simp add: sameStatic_def)

lemma sameStatic_None: "sameStatic dm dm' \<Longrightarrow> deref dm' r = None \<longleftrightarrow> deref dm r = None"
  unfolding sameStatic_def by (metis option.map_disc_iff)

lemma sameStatic_elevAt: "sameStatic dm dm' \<Longrightarrow> elevAt dm' r = elevAt dm r"
proof -
  assume "sameStatic dm dm'"
  then have "map_option static (deref dm' r) = map_option static (deref dm r)"
    unfolding sameStatic_def by blast
  then show ?thesis
    by (cases "deref dm' r"; cases "deref dm r") (auto simp: elevAt_def static_def)
qed

lemma solve_loop:
  assumes "partlySolved dm P" "distinct rs" "set rs \<inter> P = {}"
    and "\<forall>r. deref dm r \<noteq> None \<longrightarrow> r \<in> P \<union> set rs"
    and "\<forall>r\<in>set rs. deref dm r \<noteq> None"
    and "sorted (map (elevAt dm) rs)"
    and "\<forall>p\<in>P. \<forall>r\<in>set rs. elevAt dm p \<le> elevAt dm r"
  shows "\<exists>dm'. forEach processBox rs dm = Inr dm' \<and> partlySolved dm' (P \<union> set rs) \<and>
           sameStatic dm dm'"
  using assms
proof (induction rs arbitrary: dm P)
  case Nil
  then show ?case by (simp add: sameStatic_refl)
next
  case (Cons r rs)
  from Cons.prems(5) obtain b where rb: "deref dm r = Some b" by auto
  have rP: "r \<notin> P" using Cons.prems(3) by auto
  have el: "elevAt dm r = elevation b" using rb by (simp add: elevAt_def)
  have lowerDone: "\<forall>r' b'. deref dm r' = Some b' \<longrightarrow> elevation b' < elevation b \<longrightarrow> r' \<in> P"
  proof (intro allI impI)
    fix r' b' assume d: "deref dm r' = Some b'" and lt: "elevation b' < elevation b"
    then have el': "elevAt dm r' = elevation b'" by (simp add: elevAt_def)
    from d Cons.prems(4) have "r' \<in> P \<union> set (r # rs)" by blast
    moreover have "r' \<noteq> r" using d rb lt by auto
    moreover have "r' \<notin> set rs"
    proof
      assume "r' \<in> set rs"
      with Cons.prems(6) have "elevAt dm r \<le> elevAt dm r'" by auto
      with el el' lt show False by simp
    qed
    ultimately show "r' \<in> P" by auto
  qed
  have notLower: "\<forall>r' b'. r' \<in> P \<longrightarrow> deref dm r' = Some b' \<longrightarrow> elevation b' \<le> elevation b"
  proof (intro allI impI)
    fix r' b' assume "r' \<in> P" and d: "deref dm r' = Some b'"
    with Cons.prems(7) have "elevAt dm r' \<le> elevAt dm r" by simp
    with el d show "elevation b' \<le> elevation b" by (simp add: elevAt_def)
  qed
  from processBox_step[OF Cons.prems(1) rP rb lowerDone notLower] obtain dm1 where
    dm1: "processBox r dm = Inr dm1" "partlySolved dm1 (insert r P)" "sameStatic dm dm1"
    by blast
  note N = sameStatic_None[OF dm1(3)] and E = sameStatic_elevAt[OF dm1(3)]
  have "\<exists>dm'. forEach processBox rs dm1 = Inr dm' \<and> partlySolved dm' (insert r P \<union> set rs) \<and>
           sameStatic dm1 dm'"
  proof (rule Cons.IH[OF dm1(2)])
    show "distinct rs" using Cons.prems(2) by simp
    show "set rs \<inter> insert r P = {}" using Cons.prems(2,3) by auto
    show "\<forall>r'. deref dm1 r' \<noteq> None \<longrightarrow> r' \<in> insert r P \<union> set rs"
      using Cons.prems(4) by (auto simp: N)
    show "\<forall>r'\<in>set rs. deref dm1 r' \<noteq> None" using Cons.prems(5) by (simp add: N)
    have eq: "map (elevAt dm1) rs = map (elevAt dm) rs" by (simp add: E)
    show "sorted (map (elevAt dm1) rs)" unfolding eq using Cons.prems(6) by simp
    show "\<forall>p\<in>insert r P. \<forall>r'\<in>set rs. elevAt dm1 p \<le> elevAt dm1 r'"
      using Cons.prems(6,7) by (auto simp: E)
  qed
  then obtain dm' where "forEach processBox rs dm1 = Inr dm'"
    "partlySolved dm' (insert r P \<union> set rs)" "sameStatic dm1 dm'" by blast
  with dm1 show ?case
    by (auto intro: sameStatic_trans)
qed

lemma deref_createDataMap:
  "deref (createDataMap m) r =
     (if fst r < length m \<and> snd r < length (m ! fst r)
      then Some \<lparr>x = int (snd r), y = int (fst r), elevation = m ! fst r ! snd r,
                 maxDistance = None, goodDirections = None\<rparr>
      else None)"
  by (auto simp: deref_def createDataMap_def nth_enumerate_eq)

lemma createDataMap_unsolved: "partlySolved (createDataMap m) {}"
  unfolding partlySolved_def coordsOk_def
  by (auto simp: deref_createDataMap split: if_splits)

lemma createDataMap_lengths: "map length (createDataMap m) = map length m"
proof -
  have "map length (createDataMap m) = map (length \<circ> snd) (enumerate 0 m)"
    by (simp add: createDataMap_def split_def o_def)
  also have "\<dots> = map length (map snd (enumerate 0 m))" by (simp only: map_map)
  finally show ?thesis by (simp only: map_snd_enumerate)
qed

lemma createDataMap_cells: "concat (createDataMap m) = [] \<longleftrightarrow> concat m = []"
proof -
  have "length (concat (createDataMap m)) = length (concat m)"
    by (simp only: length_concat createDataMap_lengths)
  then show ?thesis by (metis length_0_conv)
qed

lemma sameStatic_cells:
  assumes "sameStatic dm dm'"
  shows "concat dm' = [] \<longleftrightarrow> concat dm = []"
proof -
  have "(\<exists>b. b \<in> set (concat dm')) \<longleftrightarrow> (\<exists>b. b \<in> set (concat dm))"
    unfolding set_concat_deref using sameStatic_None[OF assms]
    by (metis option.distinct(1) option.exhaust)
  then show ?thesis by (metis equals0I empty_iff set_empty2)
qed

lemma flatten_mem_gen:
  "((r, c), b) \<in> set (concat (map (\<lambda>(r, row). map (\<lambda>(c, b). ((r, c), b)) (enumerate 0 row))
                                   (enumerate n dm))) \<longleftrightarrow>
     n \<le> r \<and> r < n + length dm \<and> c < length (dm ! (r - n)) \<and> b = dm ! (r - n) ! c"
proof (induction dm arbitrary: n)
  case Nil
  then show ?case by simp
next
  case (Cons row dm)
  let ?F = "\<lambda>(r, row). map (\<lambda>(c, b). ((r, c), b)) (enumerate 0 row)"
  have first: "((r, c), b) \<in> (\<lambda>(c, b). ((n, c), b)) ` set (enumerate 0 row) \<longleftrightarrow>
      r = n \<and> c < length row \<and> b = row ! c"
  proof -
    have "((r, c), b) \<in> (\<lambda>(c, b). ((n, c), b)) ` set (enumerate 0 row) \<longleftrightarrow>
        r = n \<and> (c, b) \<in> set (enumerate 0 row)"
      by force
    then show ?thesis by (auto simp: in_set_enumerate_eq)
  qed
  have "((r, c), b) \<in> set (concat (map ?F (enumerate n (row # dm)))) \<longleftrightarrow>
      ((r, c), b) \<in> (\<lambda>(c, b). ((n, c), b)) ` set (enumerate 0 row) \<or>
      ((r, c), b) \<in> set (concat (map ?F (enumerate (Suc n) dm)))"
    by simp
  also have "\<dots> \<longleftrightarrow> (r = n \<and> c < length row \<and> b = row ! c) \<or>
      (Suc n \<le> r \<and> r < Suc n + length dm \<and> c < length (dm ! (r - Suc n)) \<and>
       b = dm ! (r - Suc n) ! c)"
    unfolding first Cons.IH ..
  also have "\<dots> \<longleftrightarrow> n \<le> r \<and> r < n + length (row # dm) \<and> c < length ((row # dm) ! (r - n)) \<and>
      b = (row # dm) ! (r - n) ! c"
  proof (cases "r = n")
    case True
    then show ?thesis by auto
  next
    case False
    then have "Suc n \<le> r \<Longrightarrow> (row # dm) ! (r - n) = dm ! (r - Suc n)"
      by (simp add: Suc_diff_le)
    with False show ?thesis by auto
  qed
  finally show ?case .
qed

lemma flatten_refs_mem: "(r, b) \<in> set (flatten_refs dm) \<longleftrightarrow> deref dm r = Some b"
  using flatten_mem_gen[of "fst r" "snd r" b 0 dm]
  by (auto simp: flatten_refs_def deref_def)

lemma flatten_distinct_gen:
  "distinct (map fst (concat (map (\<lambda>(r, row). map (\<lambda>(c, b). ((r, c), b)) (enumerate 0 row))
                                  (enumerate n dm))))"
proof (induction dm arbitrary: n)
  case Nil
  then show ?case by simp
next
  case (Cons row dm)
  have m: "map fst (map (\<lambda>(c, b). ((n, c), b)) (enumerate 0 row)) = map (Pair n) [0..<length row]"
  proof -
    have "map fst (map (\<lambda>(c, b). ((n, c), b)) (enumerate 0 row)) =
        map (Pair n) (map fst (enumerate 0 row))"
      by (simp only: map_map o_def split_def fst_conv)
    also have "map fst (enumerate 0 row) = [0..<length row]"
      by (simp add: map_fst_enumerate)
    finally show ?thesis .
  qed
  have d1: "distinct (map (Pair n) [0..<length row])"
    by (simp add: distinct_map inj_on_def)
  have disj: "rc \<notin> fst ` set (concat (map (\<lambda>(r, row). map (\<lambda>(c, b). ((r, c), b)) (enumerate 0 row))
                                  (enumerate (Suc n) dm)))" if "fst rc = n" for rc
  proof
    assume "rc \<in> fst ` set (concat (map (\<lambda>(r, row). map (\<lambda>(c, b). ((r, c), b)) (enumerate 0 row))
                                  (enumerate (Suc n) dm)))"
    then obtain b where "((fst rc, snd rc), b) \<in> set (concat (map (\<lambda>(r, row). map (\<lambda>(c, b). ((r, c), b)) (enumerate 0 row))
                                  (enumerate (Suc n) dm)))"
      by force
    then have "Suc n \<le> fst rc" unfolding flatten_mem_gen by simp
    with that show False by simp
  qed
  let ?F = "\<lambda>(r, row). map (\<lambda>(c, b). ((r, c), b)) (enumerate 0 row)"
  have "map fst (concat (map ?F (enumerate n (row # dm)))) =
      map (Pair n) [0..<length row] @ map fst (concat (map ?F (enumerate (Suc n) dm)))"
    by (simp only: enumerate_simps list.map concat.simps map_append prod.case m)
  moreover have "set (map (Pair n) [0..<length row]) \<inter>
      set (map fst (concat (map ?F (enumerate (Suc n) dm)))) = {}"
  proof -
    have "rc \<notin> set (map fst (concat (map ?F (enumerate (Suc n) dm))))"
      if "rc \<in> set (map (Pair n) [0..<length row])" for rc
    proof -
      from that have "fst rc = n" by auto
      from disj[OF this] show ?thesis unfolding set_map .
    qed
    then show ?thesis by blast
  qed
  ultimately show ?case
    using Cons.IH[of "Suc n"] d1 by (simp only: distinct_append)
qed

lemma flatten_refs_distinct: "distinct (map fst (flatten_refs dm))"
  unfolding flatten_refs_def by (rule flatten_distinct_gen)

lemma solve_any_order:
  assumes "partlySolved dm {}" "distinct rs" "set rs = {r. deref dm r \<noteq> None}"
    and "sorted (map (elevAt dm) rs)"
  shows "\<exists>dm'. forEach processBox rs dm = Inr dm' \<and> solved dm' \<and> sameStatic dm dm'"
proof -
  have "\<exists>dm'. forEach processBox rs dm = Inr dm' \<and> partlySolved dm' ({} \<union> set rs) \<and>
           sameStatic dm dm'"
    by (rule solve_loop[OF assms(1,2)]) (use assms(3,4) in auto)
  then obtain dm' where dm': "forEach processBox rs dm = Inr dm'" "partlySolved dm' (set rs)"
    "sameStatic dm dm'" by auto
  have "boxSolved dm' b" if "deref dm' r = Some b" for r b
  proof -
    from that sameStatic_None[OF dm'(3), of r] have "r \<in> set rs" using assms(3) by auto
    from partlySolved_in[OF dm'(2) that this] show ?thesis .
  qed
  with partlySolved_coords[OF dm'(2)] have "solved dm'" unfolding solved_def by blast
  with dm' show ?thesis by blast
qed

lemma boxesFromLowToHigh_distinct: "distinct (boxesFromLowToHigh dm)"
proof -
  let ?k = "\<lambda>(r, b). elevation b"
  have d: "distinct (map fst (flatten_refs dm))" by (rule flatten_refs_distinct)
  then have "distinct (flatten_refs dm)" by (simp add: distinct_map)
  then have "distinct (sort_key ?k (flatten_refs dm))" by simp
  moreover have "inj_on fst (set (sort_key ?k (flatten_refs dm)))"
    using d by (simp add: distinct_map)
  ultimately show ?thesis unfolding boxesFromLowToHigh_def by (simp add: distinct_map)
qed

lemma boxesFromLowToHigh_set: "set (boxesFromLowToHigh dm) = {r. deref dm r \<noteq> None}"
proof -
  have "set (boxesFromLowToHigh dm) = fst ` set (flatten_refs dm)"
    by (simp add: boxesFromLowToHigh_def)
  also have "\<dots> = {r. deref dm r \<noteq> None}"
    using flatten_refs_mem[of _ _ dm] by force
  finally show ?thesis .
qed

lemma boxesFromLowToHigh_sorted: "sorted (map (elevAt dm) (boxesFromLowToHigh dm))"
proof -
  let ?k = "\<lambda>(r, b). elevation b"
  let ?s = "sort_key ?k (flatten_refs dm)"
  have "elevAt dm (fst p) = ?k p" if "p \<in> set ?s" for p
  proof -
    from that have "(fst p, snd p) \<in> set (flatten_refs dm)" by simp
    then have "deref dm (fst p) = Some (snd p)" by (simp only: flatten_refs_mem)
    then show ?thesis by (simp add: elevAt_def split_def)
  qed
  then have "map (elevAt dm \<circ> fst) ?s = map ?k ?s" by (intro map_cong refl) simp
  then have "map (elevAt dm) (map fst ?s) = map ?k ?s" by (simp only: map_map)
  moreover have "sorted (map ?k ?s)" by (rule sorted_sort_key)
  ultimately show ?thesis unfolding boxesFromLowToHigh_def by (simp only:)
qed

lemma solveMap_solved:
  "\<exists>dm. solveMap m = Inr dm \<and> solved dm \<and> sameStatic (createDataMap m) dm"
  unfolding solveMap_def Let_def
  by (rule solve_any_order[OF createDataMap_unsolved boxesFromLowToHigh_distinct
        boxesFromLowToHigh_set boxesFromLowToHigh_sorted])

lemma solveMap_cells:
  assumes "solveMap m = Inr dm"
  shows "solved dm" and "concat dm = [] \<longleftrightarrow> concat m = []"
proof -
  from solveMap_solved[of m] assms have s: "solved dm" "sameStatic (createDataMap m) dm" by auto
  show "solved dm" by (rule s(1))
  show "concat dm = [] \<longleftrightarrow> concat m = []"
    using sameStatic_cells[OF s(2)] createDataMap_cells by simp
qed

section \<open>Solved data maps\<close>

lemma solved_getBoxAt:
  assumes "solved dm" "getBoxAt dm cx cy = Some b"
  shows "boxSolved dm b \<and> x b = cx \<and> y b = cy"
proof -
  from getBoxAt_Some_deref[OF assms(2)] obtain r where
    r: "deref dm r = Some b" "cx = int (snd r)" "cy = int (fst r)" by blast
  from assms(1) r(1) have "boxSolved dm b" unfolding solved_def by blast
  moreover from assms(1) have "coordsOk dm" unfolding solved_def by blast
  from coordsOkD[OF this r(1)] r(2,3) have "x b = cx \<and> y b = cy" by simp
  ultimately show ?thesis by blast
qed

lemma solved_neighbour:
  assumes "solved dm" "getNeighbourInDirection dm b d = Some n"
  shows "boxSolved dm n \<and> x n = x b + fst d \<and> y n = y b + snd d \<and>
         getBoxAt dm (x n) (y n) = Some n"
  using solved_getBoxAt[OF assms(1), of "x b + fst d" "y b + snd d" n] assms(2)
  by (auto simp: getNeighbourInDirection_def)

lemma solved_cells:
  assumes "solved dm" "b \<in> set (concat dm)"
  shows "boxSolved dm b \<and> getBoxAt dm (x b) (y b) = Some b"
proof -
  from assms(2) obtain r where r: "deref dm r = Some b" unfolding set_concat_deref by blast
  from assms(1) r have bs: "boxSolved dm b" unfolding solved_def by blast
  from assms(1) have "coordsOk dm" unfolding solved_def by blast
  from coordsOkD[OF this r] r have "getBoxAt dm (x b) (y b) = Some b"
    by (simp add: getBoxAt_deref)
  with bs show ?thesis by simp
qed

lemma distanceVia_None:
  assumes "boxSolved dm b" "d \<in> set DIRECTIONS"
  shows "distanceVia dm b d = None \<longleftrightarrow> d \<notin> set (descendingDirections dm b)"
proof (cases "getNeighbourInDirection dm b d")
  case None
  then show ?thesis using assms(2)
    by (simp add: distanceVia_def candidate_def descendingDirections_def)
next
  case (Some n)
  show ?thesis
  proof (cases "elevation n < elevation b")
    case True
    with assms Some obtain k where "maxDistance n = Some k" unfolding boxSolved_def by blast
    with True Some assms(2) show ?thesis
      by (simp add: distanceVia_def candidate_def descendingDirections_def)
  next
    case False
    with Some assms(2) show ?thesis
      by (simp add: distanceVia_def candidate_def descendingDirections_def)
  qed
qed

lemma descendingDirections_subset: "set (descendingDirections dm b) \<subseteq> set DIRECTIONS"
  by (auto simp: descendingDirections_def)

lemma length_DIRECTIONS: "length DIRECTIONS = 4"
  by (simp add: DIRECTIONS_def)

text \<open>What \<open>boxSolved\<close> says, in terms of the box and its neighbours alone.\<close>

lemma boxSolved_facts:
  assumes "boxSolved dm b"
  obtains m where "maxDistance b = Some m" "0 \<le> m"
    and "\<And>d n. d \<in> set DIRECTIONS \<Longrightarrow> getNeighbourInDirection dm b d = Some n \<Longrightarrow>
           elevation n < elevation b \<Longrightarrow> \<exists>k. maxDistance n = Some k \<and> 0 \<le> k \<and> k + 1 \<le> m"
    and "descendingDirections dm b = [] \<Longrightarrow> m = 0 \<and> goodDirections b = None"
    and "descendingDirections dm b \<noteq> [] \<Longrightarrow>
           goodDirections b = Some (filter (\<lambda>d. distanceVia dm b d = Some m) DIRECTIONS) \<and>
           filter (\<lambda>d. distanceVia dm b d = Some m) DIRECTIONS \<noteq> [] \<and> 1 \<le> m"
proof -
  let ?c = "distanceVia dm b"
  from assms obtain m where m: "maxDistance b = Some m"
    and le: "\<forall>d\<in>set DIRECTIONS. \<forall>k. ?c d = Some k \<longrightarrow> k \<le> m"
    and g: "if \<forall>d\<in>set DIRECTIONS. ?c d = None then m = 0 \<and> goodDirections b = None
         else (\<exists>d\<in>set DIRECTIONS. ?c d = Some m) \<and>
              goodDirections b = Some (filter (\<lambda>d. ?c d = Some m) DIRECTIONS)"
    unfolding boxSolved_def scanned_def by blast
  from boxSolved_nonneg[OF assms] m have m0: "0 \<le> m" by simp
  have allNone: "(\<forall>d\<in>set DIRECTIONS. ?c d = None) \<longleftrightarrow> descendingDirections dm b = []"
  proof
    assume "\<forall>d\<in>set DIRECTIONS. ?c d = None"
    then have "\<forall>d\<in>set DIRECTIONS. d \<notin> set (descendingDirections dm b)"
      using distanceVia_None[OF assms] by simp
    with descendingDirections_subset[of dm b] have "d \<notin> set (descendingDirections dm b)" for d
      by (cases "d \<in> set DIRECTIONS") auto
    then show "descendingDirections dm b = []" by (cases "descendingDirections dm b") auto
  next
    assume "descendingDirections dm b = []"
    then show "\<forall>d\<in>set DIRECTIONS. ?c d = None"
      using distanceVia_None[OF assms] by simp
  qed
  have nb: "\<exists>k. maxDistance n = Some k \<and> 0 \<le> k \<and> k + 1 \<le> m"
    if "d \<in> set DIRECTIONS" "getNeighbourInDirection dm b d = Some n" "elevation n < elevation b"
    for d n
  proof -
    from assms that obtain k where k: "maxDistance n = Some k" "0 \<le> k"
      unfolding boxSolved_def by blast
    with that have "?c d = Some (k + 1)" by (simp add: distanceVia_def candidate_def)
    with le that(1) have "k + 1 \<le> m" by blast
    with k show ?thesis by simp
  qed
  have ne: "goodDirections b = Some (filter (\<lambda>d. ?c d = Some m) DIRECTIONS) \<and>
           filter (\<lambda>d. ?c d = Some m) DIRECTIONS \<noteq> [] \<and> 1 \<le> m"
    if "descendingDirections dm b \<noteq> []"
  proof -
    from that allNone have "\<not> (\<forall>d\<in>set DIRECTIONS. ?c d = None)" by simp
    with g have "\<exists>d\<in>set DIRECTIONS. ?c d = Some m"
      and gd: "goodDirections b = Some (filter (\<lambda>d. ?c d = Some m) DIRECTIONS)"
      by (simp_all only: if_False)
    then obtain d where d: "d \<in> set DIRECTIONS" "?c d = Some m" by blast
    from d have "filter (\<lambda>d. ?c d = Some m) DIRECTIONS \<noteq> []"
      by (auto simp: filter_empty_conv)
    moreover from d(2) obtain n where "getNeighbourInDirection dm b d = Some n"
      "elevation n < elevation b" "maxDistance n = Some (m - 1)"
      unfolding distanceVia_def candidate_Some by blast
    with nb[OF d(1)] have "1 \<le> m" by fastforce
    ultimately show ?thesis using gd by simp
  qed
  show thesis
    by (rule that[OF m m0 nb]) (use allNone g ne in auto)
qed

lemma neighbourDistances_solved:
  assumes "goodDirections C = Some (filter (\<lambda>d. distanceVia dm C d = Some m) DIRECTIONS)"
  shows "neighbourDistances dm C =
     map Some (replicate (length (filter (\<lambda>d. distanceVia dm C d = Some m) DIRECTIONS)) (m - 1))"
proof -
  let ?ds = "filter (\<lambda>d. distanceVia dm C d = Some m) DIRECTIONS"
  have "(case getNeighbourInDirection dm C d of None \<Rightarrow> None | Some n \<Rightarrow> maxDistance n) = Some (m - 1)"
    if "d \<in> set ?ds" for d
  proof -
    from that have "distanceVia dm C d = Some m" by simp
    then obtain n where "getNeighbourInDirection dm C d = Some n" "maxDistance n = Some (m - 1)"
      unfolding distanceVia_def candidate_Some by blast
    then show ?thesis by simp
  qed
  then have "map (\<lambda>d. case getNeighbourInDirection dm C d of None \<Rightarrow> None | Some n \<Rightarrow> maxDistance n) ?ds
      = map (\<lambda>d. Some (m - 1)) ?ds"
    by (intro map_cong refl)
  then show ?thesis
    by (simp add: neighbourDistances_def directionsOf_def assms map_replicate_const)
qed

lemma descendingPath_hd:
  "descendingPath dm (a # p) \<Longrightarrow> getBoxAt dm (x a) (y a) = Some a"
  by (cases p) auto

lemma descendingPath_Cons:
  assumes "descendingPath dm p" "p \<noteq> []" "hd p = n" "getBoxAt dm (x b) (y b) = Some b"
    "adjacent b n" "elevation n < elevation b"
  shows "descendingPath dm (b # p)"
  using assms by (cases p) auto

lemma descendingPath_bound:
  assumes "solved dm"
  shows "descendingPath dm (b # p) \<Longrightarrow> maxDistance b = Some m \<Longrightarrow> int (length p) \<le> m"
proof (induction p arbitrary: b m)
  case Nil
  from solved_getBoxAt[OF assms descendingPath_hd[OF Nil(1)]] have "boxSolved dm b" by simp
  from boxSolved_nonneg[OF this] Nil(2) show ?case by simp
next
  case (Cons n p)
  from Cons.prems(1) have b: "getBoxAt dm (x b) (y b) = Some b" and adj: "adjacent b n"
    and lt: "elevation n < elevation b" and rest: "descendingPath dm (n # p)" by simp_all
  from solved_getBoxAt[OF assms b] have bs: "boxSolved dm b" by simp
  let ?d = "(x n - x b, y n - y b)"
  from adj have d: "?d \<in> set DIRECTIONS" by (simp add: adjacent_def)
  have nb: "getNeighbourInDirection dm b ?d = Some n"
    using descendingPath_hd[OF rest] by (simp add: getNeighbourInDirection_def)
  from bs obtain k where k: "maxDistance n = Some k" "k + 1 \<le> m"
  proof (rule boxSolved_facts)
    fix m' assume "maxDistance b = Some m'"
      and "\<And>d n. d \<in> set DIRECTIONS \<Longrightarrow> getNeighbourInDirection dm b d = Some n \<Longrightarrow>
           elevation n < elevation b \<Longrightarrow> \<exists>k. maxDistance n = Some k \<and> 0 \<le> k \<and> k + 1 \<le> m'"
    with d nb lt Cons.prems(2) that show thesis by fastforce
  qed
  from Cons.IH[OF rest k(1)] k(2) show ?case by simp
qed

section \<open>The order among boxes of equal elevation\<close>

lemma assign_lengths: "map length (assign dm r b) = map length dm"
proof (cases "fst r < length dm")
  case True
  then have "(map length dm)[fst r := length (dm ! fst r)] = map length dm"
    by (metis list_update_id nth_map)
  then show ?thesis by (simp add: assign_def map_update)
next
  case False
  then show ?thesis by (simp add: assign_def list_update_beyond)
qed

lemma processDirection_lengths:
  "processDirection r d dm = Inr dm' \<Longrightarrow> map length dm' = map length dm"
  by (auto simp: processDirection_def Let_def assign_lengths split: option.splits if_splits)

lemma forEach_preserves:
  assumes "\<And>a s s'. f a s = Inr s' \<Longrightarrow> g s' = g s"
  shows "forEach f as s = Inr s' \<Longrightarrow> g s' = g s"
proof (induction as arbitrary: s)
  case Nil
  then show ?case by simp
next
  case (Cons a as)
  then show ?case using assms by (fastforce split: sum.splits)
qed

lemma processBox_lengths: "processBox r dm = Inr dm' \<Longrightarrow> map length dm' = map length dm"
proof -
  assume p: "processBox r dm = Inr dm'"
  then obtain b where b: "deref dm r = Some b"
    and f: "forEach (processDirection r) DIRECTIONS (assign dm r (b\<lparr>maxDistance := Some 0\<rparr>)) = Inr dm'"
    by (auto simp: processBox_def split: option.splits)
  from forEach_preserves[of "processDirection r" "map length", OF processDirection_lengths f]
  show ?thesis by (simp add: assign_lengths)
qed

lemma solve_lengths: "forEach processBox rs dm = Inr dm' \<Longrightarrow> map length dm' = map length dm"
  by (rule forEach_preserves[of processBox "map length", OF processBox_lengths])

lemma scanned_unique:
  assumes "scanned c pre b1" "scanned c pre b2"
  shows "maxDistance b1 = maxDistance b2 \<and> goodDirections b1 = goodDirections b2"
proof -
  from assms(1) obtain m1 where m1: "maxDistance b1 = Some m1"
    "\<forall>d\<in>set pre. \<forall>k. c d = Some k \<longrightarrow> k \<le> m1"
    "if \<forall>d\<in>set pre. c d = None then m1 = 0 \<and> goodDirections b1 = None
     else (\<exists>d\<in>set pre. c d = Some m1) \<and>
          goodDirections b1 = Some (filter (\<lambda>d. c d = Some m1) pre)"
    unfolding scanned_def by blast
  from assms(2) obtain m2 where m2: "maxDistance b2 = Some m2"
    "\<forall>d\<in>set pre. \<forall>k. c d = Some k \<longrightarrow> k \<le> m2"
    "if \<forall>d\<in>set pre. c d = None then m2 = 0 \<and> goodDirections b2 = None
     else (\<exists>d\<in>set pre. c d = Some m2) \<and>
          goodDirections b2 = Some (filter (\<lambda>d. c d = Some m2) pre)"
    unfolding scanned_def by blast
  show ?thesis
  proof (cases "\<forall>d\<in>set pre. c d = None")
    case True
    with m1 m2 show ?thesis by simp
  next
    case False
    with m1(3) m2(3) have a: "\<exists>d\<in>set pre. c d = Some m1" "\<exists>d\<in>set pre. c d = Some m2"
      and g: "goodDirections b1 = Some (filter (\<lambda>d. c d = Some m1) pre)"
             "goodDirections b2 = Some (filter (\<lambda>d. c d = Some m2) pre)"
      by (simp_all only: if_False)
    from a m1(2) m2(2) have "m1 = m2" by (meson order_antisym)
    with m1(1) m2(1) g show ?thesis by simp
  qed
qed

lemma sameStatic_deref:
  assumes "sameStatic dm1 dm2" "deref dm1 r = Some b1"
  shows "\<exists>b2. deref dm2 r = Some b2 \<and> x b2 = x b1 \<and> y b2 = y b1 \<and> elevation b2 = elevation b1"
proof -
  from assms(1) have "map_option static (deref dm2 r) = map_option static (deref dm1 r)"
    unfolding sameStatic_def by blast
  with assms(2) show ?thesis by (cases "deref dm2 r") (auto simp: static_def)
qed

lemma sameStatic_sym: "sameStatic a b \<Longrightarrow> sameStatic b a"
  by (simp add: sameStatic_def)

lemma solved_deref_unique:
  assumes s1: "solved dm1" and s2: "solved dm2" and ss: "sameStatic dm1 dm2"
  shows "deref dm1 r = Some b1 \<Longrightarrow> maxDistance b1 = Some m \<Longrightarrow> deref dm2 r = Some b1"
proof (induction "nat m" arbitrary: r b1 m rule: less_induct)
  case less
  from sameStatic_deref[OF ss less.prems(1)] obtain b2 where
    b2: "deref dm2 r = Some b2" "x b2 = x b1" "y b2 = y b1" "elevation b2 = elevation b1" by blast
  from s1 less.prems(1) have bs1: "boxSolved dm1 b1" unfolding solved_def by blast
  from s2 b2(1) have bs2: "boxSolved dm2 b2" unfolding solved_def by blast
  have via: "distanceVia dm2 b2 d = distanceVia dm1 b1 d" if d: "d \<in> set DIRECTIONS" for d
  proof (cases "getNeighbourInDirection dm1 b1 d")
    case None
    then have "getBoxAt dm1 (x b1 + fst d) (y b1 + snd d) = None"
      by (simp add: getNeighbourInDirection_def)
    then have "getBoxAt dm2 (x b1 + fst d) (y b1 + snd d) = None"
      using sameStatic_None[OF ss] by (auto simp: getBoxAt_deref split: if_splits)
    with None b2 show ?thesis
      by (simp add: distanceVia_def getNeighbourInDirection_def candidate_def)
  next
    case (Some n1)
    then have g1: "getBoxAt dm1 (x b1 + fst d) (y b1 + snd d) = Some n1"
      by (simp add: getNeighbourInDirection_def)
    from getBoxAt_Some_deref[OF g1] obtain rn where rn: "deref dm1 rn = Some n1"
      "x b1 + fst d = int (snd rn)" "y b1 + snd d = int (fst rn)" by blast
    from sameStatic_deref[OF ss rn(1)] obtain n2 where
      n2: "deref dm2 rn = Some n2" "elevation n2 = elevation n1" by blast
    have g2: "getNeighbourInDirection dm2 b2 d = Some n2"
      using n2(1) rn(2,3) b2(2,3) by (simp add: getNeighbourInDirection_def getBoxAt_deref)
    show ?thesis
    proof (cases "elevation n1 < elevation b1")
      case True
      from bs1 obtain k where k: "maxDistance n1 = Some k" "0 \<le> k" "k + 1 \<le> m"
      proof (rule boxSolved_facts)
        fix m' assume "maxDistance b1 = Some m'"
          and "\<And>d n. d \<in> set DIRECTIONS \<Longrightarrow> getNeighbourInDirection dm1 b1 d = Some n \<Longrightarrow>
           elevation n < elevation b1 \<Longrightarrow> \<exists>k. maxDistance n = Some k \<and> 0 \<le> k \<and> k + 1 \<le> m'"
        with d Some True less.prems(2) that show thesis by fastforce
      qed
      then have "nat k < nat m" by simp
      from less.hyps[OF this rn(1) k(1)] n2(1) have "n2 = n1" by simp
      with Some g2 b2(4) show ?thesis by (simp add: distanceVia_def candidate_def)
    next
      case False
      with Some g2 b2(4) n2(2) show ?thesis by (simp add: distanceVia_def candidate_def)
    qed
  qed
  from bs2 have "scanned (distanceVia dm2 b2) DIRECTIONS b2" unfolding boxSolved_def by blast
  with scanned_cong[of DIRECTIONS "distanceVia dm2 b2" "distanceVia dm1 b1" b2] via
  have "scanned (distanceVia dm1 b1) DIRECTIONS b2" by simp
  moreover from bs1 have "scanned (distanceVia dm1 b1) DIRECTIONS b1"
    unfolding boxSolved_def by blast
  ultimately have "maxDistance b1 = maxDistance b2 \<and> goodDirections b1 = goodDirections b2"
    by (rule scanned_unique[rotated])
  with b2 have "b2 = b1" by simp
  with b2(1) show ?case by simp
qed

lemma solved_unique:
  assumes "solved dm1" "solved dm2" "sameStatic dm1 dm2" "map length dm1 = map length dm2"
  shows "dm1 = dm2"
proof (rule nth_equalityI)
  from assms(4) show len: "length dm1 = length dm2" by (metis length_map)
  fix i assume i: "i < length dm1"
  from assms(4) i len have rl: "length (dm1 ! i) = length (dm2 ! i)"
    by (metis nth_map)
  show "dm1 ! i = dm2 ! i"
  proof (rule nth_equalityI[OF rl])
    fix j assume j: "j < length (dm1 ! i)"
    let ?b = "dm1 ! i ! j"
    from i j have d1: "deref dm1 (i, j) = Some ?b" by (simp add: deref_def)
    with assms(1) have "boxSolved dm1 ?b" unfolding solved_def by blast
    from boxSolved_nonneg[OF this] obtain m where "maxDistance ?b = Some m" by blast
    from solved_deref_unique[OF assms(1-3) d1 this] have "deref dm2 (i, j) = Some ?b" .
    then show "dm1 ! i ! j = dm2 ! i ! j" by (simp add: deref_def split: if_splits)
  qed
qed

text \<open>
  The solver changes neither the shape of the grid nor an elevation: the elevations of the data
  map it returns are the input.
\<close>

lemma solveMap_elevations:
  assumes "solveMap m = Inr dm"
  shows "map (map elevation) dm = m"
proof -
  let ?dm0 = "createDataMap m"
  from solveMap_solved[of m] assms have ss: "sameStatic ?dm0 dm" by auto
  from assms have "forEach processBox (boxesFromLowToHigh ?dm0) ?dm0 = Inr dm"
    by (simp add: solveMap_def Let_def)
  from solve_lengths[OF this] have len: "map length dm = map length m"
    by (simp add: createDataMap_lengths)
  show ?thesis
  proof (rule nth_equalityI)
    from len show l: "length (map (map elevation) dm) = length m" by (metis length_map)
    fix i assume "i < length (map (map elevation) dm)"
    then have i: "i < length dm" "i < length m" using l by simp_all
    from len i have rl: "length (dm ! i) = length (m ! i)" by (metis nth_map)
    have "map elevation (dm ! i) = m ! i"
    proof (rule nth_equalityI)
      show "length (map elevation (dm ! i)) = length (m ! i)" using rl by simp
      fix j assume "j < length (map elevation (dm ! i))"
      then have j: "j < length (dm ! i)" "j < length (m ! i)" using rl by simp_all
      from i j have "deref ?dm0 (i, j) =
          Some \<lparr>x = int j, y = int i, elevation = m ! i ! j,
                maxDistance = None, goodDirections = None\<rparr>"
        by (simp add: deref_createDataMap)
      from sameStatic_deref[OF ss this] obtain b2 where
        "deref dm (i, j) = Some b2" "elevation b2 = m ! i ! j" by auto
      with i j have "elevation (dm ! i ! j) = m ! i ! j" by (simp add: deref_def)
      with j show "map elevation (dm ! i) ! j = m ! i ! j" by simp
    qed
    with i show "map (map elevation) dm ! i = m ! i" by simp
  qed
qed

text \<open>
  The result of the solver does not depend on the order that the sort gives to boxes of equal
  elevation: processing the boxes in any order that is ascending in elevation returns what
  \<open>solveMap\<close> returns.
\<close>

lemma solveMap_any_order:
  assumes "distinct rs" "set rs = {r. deref (createDataMap m) r \<noteq> None}"
    and "sorted (map (elevAt (createDataMap m)) rs)"
  shows "forEach processBox rs (createDataMap m) = solveMap m"
proof -
  let ?dm0 = "createDataMap m"
  from solve_any_order[OF createDataMap_unsolved assms] obtain dm1 where
    dm1: "forEach processBox rs ?dm0 = Inr dm1" "solved dm1" "sameStatic ?dm0 dm1" by blast
  from solveMap_solved[of m] obtain dm2 where
    dm2: "solveMap m = Inr dm2" "solved dm2" "sameStatic ?dm0 dm2" by blast
  from dm2(1) have "forEach processBox (boxesFromLowToHigh ?dm0) ?dm0 = Inr dm2"
    by (simp add: solveMap_def Let_def)
  from solve_lengths[OF dm1(1)] solve_lengths[OF this]
  have l: "map length dm1 = map length dm2" by simp
  have "sameStatic dm1 dm2"
    using sameStatic_trans[OF sameStatic_sym[OF dm1(3)] dm2(3)] .
  from solved_unique[OF dm1(2) dm2(2) this l] dm1(1) dm2(1) show ?thesis by simp
qed

section \<open>The enumerator on a solved data map\<close>

lemma collectPaths_ok:
  assumes "\<forall>a\<in>set as. \<exists>ps. f a = Some (Inr ps) \<and> ps \<noteq> [] \<and> (\<forall>p\<in>set ps. Q a p)"
  shows "\<exists>qs. collectPaths f as = Some (Inr qs) \<and> (as \<noteq> [] \<longrightarrow> qs \<noteq> []) \<and>
           (\<forall>p\<in>set qs. \<exists>a\<in>set as. Q a p)"
  using assms
proof (induction as)
  case Nil
  then show ?case by simp
next
  case (Cons a as)
  from Cons.prems obtain ps where ps: "f a = Some (Inr ps)" "ps \<noteq> []" "\<forall>p\<in>set ps. Q a p"
    by auto
  from Cons.IH Cons.prems obtain qs where qs: "collectPaths f as = Some (Inr qs)"
    "\<forall>p\<in>set qs. \<exists>a\<in>set as. Q a p" by auto
  have "collectPaths f (a # as) = Some (Inr (ps @ qs))" using ps(1) qs(1) by simp
  moreover have "ps @ qs \<noteq> []" using ps(2) by simp
  moreover have "\<forall>p\<in>set (ps @ qs). \<exists>a'\<in>set (a # as). Q a' p" using ps(3) qs(2) by auto
  ultimately show ?case by blast
qed

lemma getGoodPathsFromBox_solved:
  assumes "solved dm" "getBoxAt dm (x b) (y b) = Some b" "maxDistance b = Some m"
  shows "\<exists>ps. getGoodPathsFromBox dm (Some b) = Some (Inr ps) \<and> ps \<noteq> [] \<and>
           (\<forall>p\<in>set ps. descendingPath dm p \<and> hd p = b \<and> int (length p) = m + 1)"
  using assms(2,3)
proof (induction "nat m" arbitrary: b m rule: less_induct)
  case less
  from solved_getBoxAt[OF assms(1) less.prems(1)] have bs: "boxSolved dm b" by simp
  from bs show ?case
  proof (rule boxSolved_facts)
    fix m' assume m': "maxDistance b = Some m'" "0 \<le> m'"
      and nb: "\<And>d n. d \<in> set DIRECTIONS \<Longrightarrow> getNeighbourInDirection dm b d = Some n \<Longrightarrow>
           elevation n < elevation b \<Longrightarrow> \<exists>k. maxDistance n = Some k \<and> 0 \<le> k \<and> k + 1 \<le> m'"
      and none: "descendingDirections dm b = [] \<Longrightarrow> m' = 0 \<and> goodDirections b = None"
      and some: "descendingDirections dm b \<noteq> [] \<Longrightarrow>
           goodDirections b = Some (filter (\<lambda>d. distanceVia dm b d = Some m') DIRECTIONS) \<and>
           filter (\<lambda>d. distanceVia dm b d = Some m') DIRECTIONS \<noteq> [] \<and> 1 \<le> m'"
    from m' less.prems(2) have mm: "m' = m" by simp
    show ?thesis
    proof (cases "descendingDirections dm b = []")
      case True
      with none mm have z: "m = 0" "goodDirections b = None" by simp_all
      have "getGoodPathsFromBox dm (Some b) = Some (Inr [[b]])"
        by (subst getGoodPathsFromBox.simps) (simp add: z)
      with z less.prems(1) show ?thesis by simp
    next
      case False
      let ?ds = "filter (\<lambda>d. distanceVia dm b d = Some m) DIRECTIONS"
      from some[OF False] mm have gd: "goodDirections b = Some ?ds" "?ds \<noteq> []" "1 \<le> m"
        by simp_all
      let ?f = "\<lambda>direction.
                    Option.bind
                      (getGoodPathsFromBox dm (getNeighbourInDirection dm b direction))
                      (\<lambda>pathsFromNeighbour.
                         Some (map_sum id (map (\<lambda>onePathFromNeighbour. b # onePathFromNeighbour))
                                 pathsFromNeighbour))"
      have unfold: "getGoodPathsFromBox dm (Some b) = collectPaths ?f ?ds"
        by (subst getGoodPathsFromBox.simps) (simp add: gd)
      have each: "\<forall>d\<in>set ?ds. \<exists>ps. ?f d = Some (Inr ps) \<and> ps \<noteq> [] \<and>
          (\<forall>p\<in>set ps. descendingPath dm p \<and> hd p = b \<and> int (length p) = m + 1)"
      proof
        fix d assume "d \<in> set ?ds"
        then have d: "d \<in> set DIRECTIONS" "distanceVia dm b d = Some m" by simp_all
        then obtain n where n: "getNeighbourInDirection dm b d = Some n"
          "elevation n < elevation b" "maxDistance n = Some (m - 1)"
          unfolding distanceVia_def candidate_Some by blast
        from solved_neighbour[OF assms(1) n(1)] have nc: "getBoxAt dm (x n) (y n) = Some n"
          "x n = x b + fst d" "y n = y b + snd d" by blast+
        have "nat (m - 1) < nat m" using gd(3) by simp
        from less.hyps[OF this nc(1) n(3)] obtain ps where
          ps: "getGoodPathsFromBox dm (Some n) = Some (Inr ps)" "ps \<noteq> []"
          "\<forall>p\<in>set ps. descendingPath dm p \<and> hd p = n \<and> int (length p) = m - 1 + 1" by blast
        have adj: "adjacent b n" using nc(2,3) d(1) by (simp add: adjacent_def)
        have "?f d = Some (Inr (map (\<lambda>p. b # p) ps))" using n(1) ps(1) by simp
        moreover have "map (\<lambda>p. b # p) ps \<noteq> []" using ps(2) by simp
        moreover have "descendingPath dm (b # p) \<and> hd (b # p) = b \<and> int (length (b # p)) = m + 1"
          if "p \<in> set ps" for p
        proof -
          from ps(3) that have p: "descendingPath dm p" "hd p = n" "int (length p) = m" by auto
          from p(3) gd(3) have "p \<noteq> []" by auto
          from descendingPath_Cons[OF p(1) this p(2) less.prems(1) adj n(2)] p(3)
          show ?thesis by simp
        qed
        ultimately show "\<exists>ps. ?f d = Some (Inr ps) \<and> ps \<noteq> [] \<and>
          (\<forall>p\<in>set ps. descendingPath dm p \<and> hd p = b \<and> int (length p) = m + 1)"
          by (intro exI[of _ "map (\<lambda>p. b # p) ps"]) auto
      qed
      from collectPaths_ok[OF each] gd(2) unfold show ?thesis by auto
    qed
  qed
qed

lemma bestStep_Some:
  "maxDistance b = Some m \<Longrightarrow>
   bestStep b (bd, acc) =
     (if m > bd then (m, [b]) else if m = bd then (bd, acc @ [b]) else (bd, acc))"
  by (simp add: bestStep_def js_gt_def js_ge_def Let_def)

lemma fold_bestStep:
  assumes "\<forall>b\<in>set bs. \<exists>k. maxDistance b = Some k \<and> 0 \<le> k"
    and "\<forall>b\<in>set pre. \<exists>k. maxDistance b = Some k \<and> k \<le> bd"
    and "(pre = [] \<and> bd = -1) \<or> (\<exists>b\<in>set pre. maxDistance b = Some bd)"
  shows "fold bestStep bs (bd, filter (\<lambda>b. maxDistance b = Some bd) pre) =
     (Max (insert bd (set (List.map_filter maxDistance bs))),
      filter (\<lambda>b. maxDistance b = Some (Max (insert bd (set (List.map_filter maxDistance bs)))))
        (pre @ bs))"
  using assms
proof (induction bs arbitrary: pre bd)
  case Nil
  then show ?case by (simp add: List.map_filter_simps)
next
  case (Cons b bs)
  from Cons.prems(1) obtain m where m: "maxDistance b = Some m" "0 \<le> m" by auto
  let ?S = "set (List.map_filter maxDistance bs)"
  have fin: "finite ?S" by simp
  have mx: "Max (insert bd (set (List.map_filter maxDistance (b # bs)))) = Max (insert (max bd m) ?S)"
  proof -
    have "insert bd (set (List.map_filter maxDistance (b # bs))) = insert bd (insert m ?S)"
      using m by (simp add: List.map_filter_simps)
    also have "Max \<dots> = max bd (Max (insert m ?S))" by (simp add: fin)
    also have "\<dots> = Max (insert (max bd m) ?S)"
      by (cases "?S = {}") (simp_all add: fin max.assoc)
    finally show ?thesis .
  qed
  let ?bd' = "max bd m"
  have step: "bestStep b (bd, filter (\<lambda>b. maxDistance b = Some bd) pre) =
      (?bd', filter (\<lambda>b. maxDistance b = Some ?bd') (pre @ [b]))"
  proof -
    consider "m > bd" | "m = bd" | "m < bd" by linarith
    then show ?thesis
    proof cases
      case 1
      then have "filter (\<lambda>b. maxDistance b = Some m) pre = []"
        using Cons.prems(2) by (fastforce simp: filter_empty_conv)
      with 1 m show ?thesis by (simp add: bestStep_Some max_def)
    next
      case 2
      with m show ?thesis by (simp add: bestStep_Some)
    next
      case 3
      with m show ?thesis by (simp add: bestStep_Some max_def)
    qed
  qed
  have p2: "\<forall>b'\<in>set (pre @ [b]). \<exists>k. maxDistance b' = Some k \<and> k \<le> ?bd'"
    using Cons.prems(2) m by (fastforce simp: max_def)
  have p3: "(pre @ [b] = [] \<and> ?bd' = -1) \<or> (\<exists>b'\<in>set (pre @ [b]). maxDistance b' = Some ?bd')"
  proof (cases "m \<ge> bd")
    case True
    with m show ?thesis by (simp add: max_def)
  next
    case False
    with m Cons.prems(3) show ?thesis by (auto simp: max_def)
  qed
  have p1: "\<forall>b\<in>set bs. \<exists>k. maxDistance b = Some k \<and> 0 \<le> k" using Cons.prems(1) by simp
  show ?case
    unfolding fold_simps step mx Cons.IH[OF p1 p2 p3] by simp
qed

lemma set_map_filter: "set (List.map_filter f xs) = {k. \<exists>b\<in>set xs. f b = Some k}"
  by (induction xs) (auto simp: List.map_filter_simps split: option.splits)

lemma fold_rows: "fold (\<lambda>row st. fold f row st) rows st = fold f (concat rows) st"
  by (induction rows arbitrary: st) simp_all

lemma findBestStartPoints_solved:
  assumes "solved dm" "concat dm \<noteq> []"
  shows "findBestStartPoints dm =
           filter (\<lambda>b. maxDistance b = Some (bestDistance dm)) (concat dm)"
    and "findBestStartPoints dm \<noteq> []"
    and "0 \<le> bestDistance dm"
proof -
  let ?S = "set (List.map_filter maxDistance (concat dm))"
  have all: "\<forall>b\<in>set (concat dm). \<exists>k. maxDistance b = Some k \<and> 0 \<le> k"
    using solved_cells[OF assms(1)] boxSolved_nonneg by blast
  from assms(2) obtain b0 where b0: "b0 \<in> set (concat dm)" by (cases "concat dm") auto
  with all obtain k0 where k0: "maxDistance b0 = Some k0" "0 \<le> k0" by blast
  have S: "?S = {k. \<exists>b\<in>set (concat dm). maxDistance b = Some k}"
    by (rule set_map_filter)
  with b0 k0 have k0S: "k0 \<in> ?S" by blast
  have fin: "finite ?S" by simp
  have ge: "0 \<le> Max ?S" using Max_ge[OF fin k0S] k0(2) by linarith
  then have mx: "Max (insert (-1) ?S) = Max ?S"
    using k0S fin by (subst Max_insert) (auto simp: max_def)
  have "fold (\<lambda>row st. fold bestStep row st) dm (-1, []) = fold bestStep (concat dm) (-1, [])"
    by (rule fold_rows)
  also have "\<dots> = fold bestStep (concat dm) (-1, filter (\<lambda>b. maxDistance b = Some (-1)) [])"
    by simp
  also have "\<dots> = (Max (insert (-1) ?S),
      filter (\<lambda>b. maxDistance b = Some (Max (insert (-1) ?S))) ([] @ concat dm))"
    by (rule fold_bestStep[OF all]) simp_all
  finally show eq: "findBestStartPoints dm =
           filter (\<lambda>b. maxDistance b = Some (bestDistance dm)) (concat dm)"
    by (simp add: findBestStartPoints_def bestDistance_def mx)
  show "0 \<le> bestDistance dm" using ge by (simp add: bestDistance_def)
  from k0S have "?S \<noteq> {}" by (metis empty_iff)
  from Max_in[OF fin this] have "Max ?S \<in> ?S" .
  then obtain b where "b \<in> set (concat dm)" "maxDistance b = Some (bestDistance dm)"
    unfolding S bestDistance_def by blast
  then show "findBestStartPoints dm \<noteq> []"
    unfolding eq by (auto simp: filter_empty_conv)
qed

lemma findBestStartPoints_no_cells:
  assumes "concat dm = []"
  shows "findBestStartPoints dm = []"
  unfolding findBestStartPoints_def fold_rows assms by simp

lemma getGoodPathsFromStartPoints_solved:
  assumes "solved dm" "concat dm \<noteq> []"
  shows "\<exists>ps. getGoodPathsFromStartPoints dm (findBestStartPoints dm) = Some (Inr ps) \<and>
           ps \<noteq> [] \<and>
           (\<forall>p\<in>set ps. descendingPath dm p \<and> int (length p) = bestDistance dm + 1 \<and>
              hd p \<in> set (findBestStartPoints dm))"
proof -
  note fb = findBestStartPoints_solved[OF assms]
  have "\<forall>b\<in>set (findBestStartPoints dm).
      \<exists>ps. getGoodPathsFromBox dm (Some b) = Some (Inr ps) \<and> ps \<noteq> [] \<and>
        (\<forall>p\<in>set ps. descendingPath dm p \<and> hd p = b \<and> int (length p) = bestDistance dm + 1)"
  proof
    fix b assume "b \<in> set (findBestStartPoints dm)"
    then have b: "b \<in> set (concat dm)" "maxDistance b = Some (bestDistance dm)"
      unfolding fb(1) by simp_all
    from solved_cells[OF assms(1) b(1)] have "getBoxAt dm (x b) (y b) = Some b" by simp
    from getGoodPathsFromBox_solved[OF assms(1) this b(2)]
    show "\<exists>ps. getGoodPathsFromBox dm (Some b) = Some (Inr ps) \<and> ps \<noteq> [] \<and>
        (\<forall>p\<in>set ps. descendingPath dm p \<and> hd p = b \<and> int (length p) = bestDistance dm + 1)" .
  qed
  from collectPaths_ok[OF this] fb(2) show ?thesis
    unfolding getGoodPathsFromStartPoints_def by fastforce
qed

text \<open>
  The enumerator of \<^verbatim>\<open>src/unnamed/part_000\<close> on the best start points. On every grid with at
  least one cell the solver and the enumerator return, and every path that
  \<^verbatim>\<open>getGoodPathsFromStartPoints\<close> produces has exactly \<open>bestDistance + 1\<close> cells, all of them
  cells of the grid, each followed by a 4-neighbour of strictly lower elevation.
\<close>

lemma enumerated_paths_descend:
  "concat mountainMap \<noteq> [] \<Longrightarrow>
   \<exists>dm ps. solveMap mountainMap = Inr dm \<and>
     getGoodPathsFromStartPoints dm (findBestStartPoints dm) = Some (Inr ps) \<and>
     (\<forall>p\<in>set ps. int (length p) = bestDistance dm + 1 \<and> descendingPath dm p)"
proof -
  assume ne: "concat mountainMap \<noteq> []"
  from solveMap_solved[of mountainMap] obtain dm where dm: "solveMap mountainMap = Inr dm"
    by blast
  from solveMap_cells[OF dm] ne have s: "solved dm" "concat dm \<noteq> []" by simp_all
  from getGoodPathsFromStartPoints_solved[OF s] dm show ?thesis by blast
qed

section \<open>The selector\<close>

lemma addSteepness_nonempty:
  "p \<noteq> [] \<Longrightarrow> addSteepness p = Inr \<lparr>cells = p, steepness = jsSteepness p\<rparr>"
  by (cases p) (simp_all add: addSteepness_def jsSteepness_def)

lemma addSteepnessAll_nonempty:
  "\<forall>p\<in>set ps. p \<noteq> [] \<Longrightarrow>
   addSteepnessAll ps = Inr (map (\<lambda>p. \<lparr>cells = p, steepness = jsSteepness p\<rparr>) ps)"
  by (induction ps) (simp_all add: addSteepness_nonempty)

lemma js_less_trans: "js_less a b \<Longrightarrow> js_less b c \<Longrightarrow> js_less a c"
  by (cases a; cases b; cases c) simp_all

lemma js_less_neg_trans: "js_less a c \<Longrightarrow> \<not> js_less b c \<Longrightarrow> js_less a b"
  by (cases a; cases b; cases c) simp_all

lemma js_less_antisym: "\<not> js_less a b \<Longrightarrow> \<not> js_less b a \<Longrightarrow> a = b"
  by (cases a; cases b) simp_all

lemma js_less_MinusInfinity: "\<not> js_less MinusInfinity n \<Longrightarrow> n = MinusInfinity"
  by (cases n) simp_all

lemma underscore_max_fold:
  "fold (\<lambda>n result. if js_less result n then n else result) ns r = g \<Longrightarrow>
   (g = r \<or> g \<in> set ns) \<and> \<not> js_less g r \<and> (\<forall>n\<in>set ns. \<not> js_less g n)"
proof (induction ns arbitrary: r)
  case Nil
  then show ?case by (cases g) auto
next
  case (Cons n ns)
  let ?r = "if js_less r n then n else r"
  from Cons.prems have "fold (\<lambda>n result. if js_less result n then n else result) ns ?r = g"
    by simp
  from Cons.IH[OF this] have ih: "g = ?r \<or> g \<in> set ns" "\<not> js_less g ?r"
    "\<forall>n\<in>set ns. \<not> js_less g n" by simp_all
  show ?case
  proof (cases "js_less r n")
    case True
    with ih(2) have gn: "\<not> js_less g n" by simp
    have "\<not> js_less g r" using gn True js_less_trans by blast
    with ih True gn show ?thesis by auto
  next
    case False
    with ih(2) have gr: "\<not> js_less g r" by simp
    have "\<not> js_less g n" using gr False js_less_neg_trans by blast
    with ih False gr show ?thesis by auto
  qed
qed

lemma underscore_max_greatest:
  assumes "ns \<noteq> []"
  shows "underscore_max ns \<in> set ns \<and> (\<forall>n\<in>set ns. \<not> js_less (underscore_max ns) n)"
proof -
  let ?g = "underscore_max ns"
  from underscore_max_fold[of ns MinusInfinity ?g]
  have g: "?g = MinusInfinity \<or> ?g \<in> set ns" "\<forall>n\<in>set ns. \<not> js_less ?g n"
    by (simp_all add: underscore_max_def)
  have "?g \<in> set ns"
  proof (cases "?g \<in> set ns")
    case True
    then show ?thesis .
  next
    case False
    with g(1) have m: "?g = MinusInfinity" by simp
    from assms have "hd ns \<in> set ns" by simp
    moreover from this g(2) m have "hd ns = MinusInfinity"
      using js_less_MinusInfinity by metis
    ultimately show ?thesis using m by simp
  qed
  with g(2) show ?thesis by simp
qed

lemma bitlen_power2: "bitlen (2 ^ k) = Suc k"
proof (induction k)
  case 0
  show ?case by (simp add: bitlen.simps[of 1] bitlen.simps[of 0])
next
  case (Suc k)
  then show ?case by (subst bitlen.simps) simp
qed

lemma bitlen_le: "m < 2 ^ k \<Longrightarrow> bitlen m \<le> k"
proof (induction k arbitrary: m)
  case 0
  then show ?case by (simp add: bitlen.simps[of m])
next
  case (Suc k)
  show ?case
  proof (cases "m \<le> 0")
    case True
    then show ?thesis by (simp add: bitlen.simps[of m])
  next
    case False
    from Suc.prems have "m div 2 < 2 ^ k" by simp
    from Suc.IH[OF this] False show ?thesis by (simp add: bitlen.simps[of m])
  qed
qed

text \<open>A difference of magnitude at most \<open>2^53\<close> is computed exactly.\<close>

lemma js_minus_exact:
  assumes "\<bar>a - b\<bar> \<le> 2 ^ 53"
  shows "js_minus a b = Finite (a - b)"
proof -
  let ?m = "\<bar>a - b\<bar>"
  have r: "round53 ?m = ?m"
  proof (cases "?m < 2 ^ 53")
    case True
    from bitlen_le[OF this] show ?thesis by (simp add: round53_def)
  next
    case False
    with assms have m: "?m = 2 ^ 53" by simp
    have b: "bitlen (2 ^ 53) = 54" using bitlen_power2[of 53] by simp
    have "round53 (2 ^ 53) = 2 ^ 53" unfolding round53_def b by (simp add: Let_def)
    with m show ?thesis by simp
  qed
  from assms have "?m < 2 ^ 54" by simp
  from bitlen_le[OF this] have small: "\<not> bitlen ?m > 1024" by simp
  have "js_minus a b = Finite (if a - b < 0 then - ?m else ?m)"
    unfolding js_minus_def Let_def r using small by (simp only: if_False)
  also have "(if a - b < 0 then - ?m else ?m) = a - b" by simp
  finally show ?thesis .
qed

lemma select_steepest_core:
  assumes "potentialPaths \<noteq> []" and "\<forall>p\<in>set potentialPaths. p \<noteq> []"
  shows "\<exists>out g. selectPathsWithGreatestSteepness potentialPaths = Inr out \<and>
           map cells out = filter (\<lambda>p. jsSteepness p = g) potentialPaths \<and>
           out \<noteq> [] \<and>
           g \<in> jsSteepness ` set potentialPaths \<and>
           (\<forall>p\<in>set potentialPaths. \<not> js_less g (jsSteepness p)) \<and>
           (\<forall>sp\<in>set out. steepness sp = g \<and> steepness sp = jsSteepness (cells sp))"
proof -
  let ?mk = "\<lambda>p. \<lparr>cells = p, steepness = jsSteepness p\<rparr>"
  let ?g = "underscore_max (map jsSteepness potentialPaths)"
  let ?out = "filter (\<lambda>sp. steepness sp = ?g) (map ?mk potentialPaths)"
  have s: "map steepness (map ?mk potentialPaths) = map jsSteepness potentialPaths"
    by (simp add: o_def)
  have sel: "selectPathsWithGreatestSteepness potentialPaths = Inr ?out"
    unfolding selectPathsWithGreatestSteepness_def addSteepnessAll_nonempty[OF assms(2)]
    by (simp only: sum.case Let_def s)
  have cells: "map cells ?out = filter (\<lambda>p. jsSteepness p = ?g) potentialPaths"
    by (simp add: filter_map o_def)
  from underscore_max_greatest[of "map jsSteepness potentialPaths"] assms(1)
  have g: "?g \<in> jsSteepness ` set potentialPaths"
    "\<forall>p\<in>set potentialPaths. \<not> js_less ?g (jsSteepness p)" by simp_all
  then obtain p where "p \<in> set potentialPaths" "jsSteepness p = ?g" by auto
  then have ne: "?out \<noteq> []" by (auto simp: filter_empty_conv)
  have "\<forall>sp\<in>set ?out. steepness sp = ?g \<and> steepness sp = jsSteepness (cells sp)"
    by auto
  with sel cells ne g show ?thesis by blast
qed

section \<open>The two copies of the enumerator and of the selector\<close>

lemma entryOf_Cons: "p \<noteq> [] \<Longrightarrow> Route (flatten_pair b (entryOf p)) = entryOf (b # p)"
  by (cases p; cases "tl p") (auto simp: entryOf_def flatten_pair_def split: list.splits)

lemma collectPaths_rel:
  assumes "\<forall>a\<in>set as. \<exists>ps. f a = Some (Inr ps) \<and> g a = Some (Inr (map h ps)) \<and> Q ps"
    and "Q []" and "\<And>ps qs. Q ps \<Longrightarrow> Q qs \<Longrightarrow> Q (ps @ qs)"
  shows "\<exists>qs. collectPaths f as = Some (Inr qs) \<and> collectPaths g as = Some (Inr (map h qs)) \<and>
           Q qs"
  using assms(1)
proof (induction as)
  case Nil
  then show ?case by (simp add: assms(2))
next
  case (Cons a as)
  from Cons.prems obtain ps where ps: "f a = Some (Inr ps)" "g a = Some (Inr (map h ps))" "Q ps"
    by auto
  from Cons.IH Cons.prems obtain qs where qs: "collectPaths f as = Some (Inr qs)"
    "collectPaths g as = Some (Inr (map h qs))" "Q qs" by auto
  have "collectPaths f (a # as) = Some (Inr (ps @ qs))" using ps(1) qs(1) by simp
  moreover have "collectPaths g (a # as) = Some (Inr (map h (ps @ qs)))"
    using ps(2) qs(2) by simp
  moreover have "Q (ps @ qs)" using ps(3) qs(3) by (rule assms(3))
  ultimately show ?case by blast
qed

lemma getGoodPathsFromBox_flr_agrees:
  assumes "solved dm" "getBoxAt dm (x b) (y b) = Some b" "maxDistance b = Some m"
  shows "\<exists>ps. getGoodPathsFromBox dm (Some b) = Some (Inr ps) \<and>
           getGoodPathsFromBox_flr dm (Some b) = Some (Inr (map entryOf ps)) \<and>
           (\<forall>p\<in>set ps. p \<noteq> [])"
  using assms(2,3)
proof (induction "nat m" arbitrary: b m rule: less_induct)
  case less
  from solved_getBoxAt[OF assms(1) less.prems(1)] have bs: "boxSolved dm b" by simp
  from bs show ?case
  proof (rule boxSolved_facts)
    fix m' assume m': "maxDistance b = Some m'" "0 \<le> m'"
      and none: "descendingDirections dm b = [] \<Longrightarrow> m' = 0 \<and> goodDirections b = None"
      and some: "descendingDirections dm b \<noteq> [] \<Longrightarrow>
           goodDirections b = Some (filter (\<lambda>d. distanceVia dm b d = Some m') DIRECTIONS) \<and>
           filter (\<lambda>d. distanceVia dm b d = Some m') DIRECTIONS \<noteq> [] \<and> 1 \<le> m'"
    from m' less.prems(2) have mm: "m' = m" by simp
    show ?thesis
    proof (cases "descendingDirections dm b = []")
      case True
      with none have z: "goodDirections b = None" by simp
      have "getGoodPathsFromBox dm (Some b) = Some (Inr [[b]])"
        by (subst getGoodPathsFromBox.simps) (simp add: z)
      moreover have "getGoodPathsFromBox_flr dm (Some b) = Some (Inr [Bare (Some b)])"
        by (subst getGoodPathsFromBox_flr.simps) (simp add: z)
      ultimately show ?thesis by (simp add: entryOf_def)
    next
      case False
      let ?ds = "filter (\<lambda>d. distanceVia dm b d = Some m) DIRECTIONS"
      from some[OF False] mm have gd: "goodDirections b = Some ?ds" "?ds \<noteq> []" "1 \<le> m"
        by simp_all
      let ?f = "\<lambda>direction.
                    Option.bind
                      (getGoodPathsFromBox dm (getNeighbourInDirection dm b direction))
                      (\<lambda>pathsFromNeighbour.
                         Some (map_sum id (map (\<lambda>onePathFromNeighbour. b # onePathFromNeighbour))
                                 pathsFromNeighbour))"
      let ?g = "\<lambda>direction.
                    Option.bind
                      (getGoodPathsFromBox_flr dm (getNeighbourInDirection dm b direction))
                      (\<lambda>pathsFromNeighbour.
                         Some (map_sum id
                                 (map (\<lambda>onePathFromNeighbour.
                                         Route (flatten_pair b onePathFromNeighbour)))
                                 pathsFromNeighbour))"
      have unfold: "getGoodPathsFromBox dm (Some b) = collectPaths ?f ?ds"
        by (subst getGoodPathsFromBox.simps) (simp add: gd)
      have unfold_flr: "getGoodPathsFromBox_flr dm (Some b) = collectPaths ?g ?ds"
        using gd(2) by (subst getGoodPathsFromBox_flr.simps) (simp add: gd(1))
      have each: "\<forall>d\<in>set ?ds. \<exists>ps. ?f d = Some (Inr ps) \<and> ?g d = Some (Inr (map entryOf ps)) \<and>
          (\<forall>p\<in>set ps. p \<noteq> [])"
      proof
        fix d assume "d \<in> set ?ds"
        then have d: "d \<in> set DIRECTIONS" "distanceVia dm b d = Some m" by simp_all
        then obtain n where n: "getNeighbourInDirection dm b d = Some n"
          "maxDistance n = Some (m - 1)"
          unfolding distanceVia_def candidate_Some by blast
        from solved_neighbour[OF assms(1) n(1)] have nc: "getBoxAt dm (x n) (y n) = Some n"
          by blast
        have "nat (m - 1) < nat m" using gd(3) by simp
        from less.hyps[OF this nc n(2)] obtain ps where
          ps: "getGoodPathsFromBox dm (Some n) = Some (Inr ps)"
          "getGoodPathsFromBox_flr dm (Some n) = Some (Inr (map entryOf ps))"
          "\<forall>p\<in>set ps. p \<noteq> []" by blast
        have "?f d = Some (Inr (map (\<lambda>p. b # p) ps))" using n(1) ps(1) by simp
        moreover have "map (\<lambda>e. Route (flatten_pair b e)) (map entryOf ps) =
            map entryOf (map (\<lambda>p. b # p) ps)"
          using ps(3) by (simp add: entryOf_Cons)
        then have "?g d = Some (Inr (map entryOf (map (\<lambda>p. b # p) ps)))"
          using n(1) ps(2) by simp
        ultimately show "\<exists>ps. ?f d = Some (Inr ps) \<and> ?g d = Some (Inr (map entryOf ps)) \<and>
          (\<forall>p\<in>set ps. p \<noteq> [])"
          by (intro exI[of _ "map (\<lambda>p. b # p) ps"]) simp
      qed
      have "\<exists>qs. collectPaths ?f ?ds = Some (Inr qs) \<and>
          collectPaths ?g ?ds = Some (Inr (map entryOf qs)) \<and> (\<forall>p\<in>set qs. p \<noteq> [])"
        by (rule collectPaths_rel[OF each]) auto
      then show ?thesis unfolding unfold unfold_flr .
    qed
  qed
qed

lemma getGoodPathsFromStartPoints_flr_agrees:
  assumes "solved dm" "concat dm \<noteq> []"
  shows "\<exists>ps. getGoodPathsFromStartPoints dm (findBestStartPoints dm) = Some (Inr ps) \<and>
           getGoodPathsFromStartPoints_flr dm (findBestStartPoints dm) =
             Some (Inr (map entryOf ps))"
proof -
  note fb = findBestStartPoints_solved[OF assms]
  have each: "\<forall>b\<in>set (findBestStartPoints dm).
      \<exists>ps. getGoodPathsFromBox dm (Some b) = Some (Inr ps) \<and>
        getGoodPathsFromBox_flr dm (Some b) = Some (Inr (map entryOf ps)) \<and> True"
  proof
    fix b assume "b \<in> set (findBestStartPoints dm)"
    then have b: "b \<in> set (concat dm)" "maxDistance b = Some (bestDistance dm)"
      unfolding fb(1) by simp_all
    from solved_cells[OF assms(1) b(1)] have "getBoxAt dm (x b) (y b) = Some b" by simp
    from getGoodPathsFromBox_flr_agrees[OF assms(1) this b(2)]
    show "\<exists>ps. getGoodPathsFromBox dm (Some b) = Some (Inr ps) \<and>
        getGoodPathsFromBox_flr dm (Some b) = Some (Inr (map entryOf ps)) \<and> True" by blast
  qed
  have "\<exists>qs. getGoodPathsFromStartPoints dm (findBestStartPoints dm) = Some (Inr qs) \<and>
      getGoodPathsFromStartPoints_flr dm (findBestStartPoints dm) = Some (Inr (map entryOf qs)) \<and>
      True"
    unfolding getGoodPathsFromStartPoints_def getGoodPathsFromStartPoints_flr_def
    by (rule collectPaths_rel[OF each]) simp_all
  then show ?thesis by simp
qed

lemma addSteepness_flr_route:
  assumes "2 \<le> length p"
  shows "addSteepness_flr (entryOf p) = Inr \<lparr>cells = entryOf p, steepness = jsSteepness p\<rparr>"
proof -
  from assms obtain a b q where p: "p = a # b # q" by (cases p; cases "tl p") auto
  then have e: "entryOf p = Route (map Some p)" by (simp add: entryOf_def)
  have "last (map Some p) = Some (last p)" using p by (simp add: last_map)
  then show ?thesis
    unfolding e addSteepness_flr_def using p by (simp add: jsSteepness_def)
qed

lemma addSteepnessAll_flr_routes:
  "\<forall>p\<in>set ps. 2 \<le> length p \<Longrightarrow>
   addSteepnessAll_flr (map entryOf ps) =
     Inr (map (\<lambda>p. \<lparr>cells = entryOf p, steepness = jsSteepness p\<rparr>) ps)"
  by (induction ps) (simp_all add: addSteepness_flr_route)

lemma addSteepnessAll_flr_bare:
  "addSteepnessAll_flr (map entryOf ([c] # ps)) = Inl TypeError"
  by (simp add: entryOf_def addSteepness_flr_def)

lemma filter_asEntry:
  "filter (\<lambda>sp. steepness sp = g)
       (map (\<lambda>p. \<lparr>cells = entryOf p, steepness = jsSteepness p\<rparr>) ps) =
   map asEntry (filter (\<lambda>sp. steepness sp = g)
       (map (\<lambda>p. \<lparr>cells = p, steepness = jsSteepness p\<rparr>) ps))"
  by (induction ps) (simp_all add: asEntry_def)

lemma select_flr_routes:
  assumes "\<forall>p\<in>set ps. 2 \<le> length p"
  shows "\<exists>out. selectPathsWithGreatestSteepness ps = Inr out \<and>
           selectPathsWithGreatestSteepness_flr (map entryOf ps) = Inr (map asEntry out)"
proof -
  let ?mk = "\<lambda>p. \<lparr>cells = p, steepness = jsSteepness p\<rparr>"
  let ?mk' = "\<lambda>p. \<lparr>cells = entryOf p, steepness = jsSteepness p\<rparr>"
  let ?g = "underscore_max (map jsSteepness ps)"
  from assms have ne: "\<forall>p\<in>set ps. p \<noteq> []" by auto
  have a: "addSteepnessAll ps = Inr (map ?mk ps)" by (rule addSteepnessAll_nonempty[OF ne])
  have a': "addSteepnessAll_flr (map entryOf ps) = Inr (map ?mk' ps)"
    by (rule addSteepnessAll_flr_routes[OF assms])
  have s: "map steepness (map ?mk ps) = map jsSteepness ps"
    "map steepness (map ?mk' ps) = map jsSteepness ps" by (simp_all add: o_def)
  have "selectPathsWithGreatestSteepness ps =
      Inr (filter (\<lambda>sp. steepness sp = ?g) (map ?mk ps))"
    unfolding selectPathsWithGreatestSteepness_def a by (simp only: sum.case Let_def s)
  moreover have "selectPathsWithGreatestSteepness_flr (map entryOf ps) =
      Inr (filter (\<lambda>sp. steepness sp = ?g) (map ?mk' ps))"
    unfolding selectPathsWithGreatestSteepness_flr_def a' by (simp only: sum.case Let_def s)
  moreover have "filter (\<lambda>sp. steepness sp = ?g) (map ?mk' ps) =
      map asEntry (filter (\<lambda>sp. steepness sp = ?g) (map ?mk ps))"
    by (rule filter_asEntry)
  ultimately show ?thesis by simp
qed

text \<open>
  Where the longest path has at least one edge, the two pipelines return the same paths with
  the same steepness; the copy returns each as an array that holds the same boxes.
\<close>

lemma pipelines_agree_on_longer_paths:
  assumes "concat m \<noteq> []" "solveMap m = Inr dm" "1 \<le> bestDistance dm"
  shows "\<exists>out. processMap m = Some (Inr out) \<and> out \<noteq> [] \<and>
           processMap_flr m = Some (Inr (map asEntry out))"
proof -
  from solveMap_cells[OF assms(2)] assms(1) have s: "solved dm" "concat dm \<noteq> []" by simp_all
  from getGoodPathsFromStartPoints_solved[OF s] obtain ps where
    ps: "getGoodPathsFromStartPoints dm (findBestStartPoints dm) = Some (Inr ps)" "ps \<noteq> []"
    "\<forall>p\<in>set ps. descendingPath dm p \<and> int (length p) = bestDistance dm + 1 \<and>
              hd p \<in> set (findBestStartPoints dm)" by blast
  from getGoodPathsFromStartPoints_flr_agrees[OF s] ps(1)
  have ps': "getGoodPathsFromStartPoints_flr dm (findBestStartPoints dm) =
      Some (Inr (map entryOf ps))" by simp
  from ps(3) assms(3) have len: "\<forall>p\<in>set ps. 2 \<le> length p" by fastforce
  then have ne: "\<forall>p\<in>set ps. p \<noteq> []" by auto
  from select_flr_routes[OF len] obtain out where
    out: "selectPathsWithGreatestSteepness ps = Inr out"
    "selectPathsWithGreatestSteepness_flr (map entryOf ps) = Inr (map asEntry out)" by blast
  from select_steepest_core[OF ps(2) ne] out(1) have one: "out \<noteq> []" by auto
  have "processMap m = Some (Inr out)"
    by (simp add: processMap_def assms(2) ps(1) out(1))
  moreover have "processMap_flr m = Some (Inr (map asEntry out))"
    using one by (simp add: processMap_flr_def assms(2) ps' out(2) split: list.splits)
  ultimately show ?thesis using one by blast
qed

text \<open>
  Where the grid has a cell and the longest path is a single cell, the copy throws and
  \<^verbatim>\<open>src/unnamed/part_000\<close> returns at least one path.
\<close>

lemma flr_fails_on_one_cell_paths:
  assumes "concat m \<noteq> []" "solveMap m = Inr dm" "bestDistance dm = 0"
  shows "processMap_flr m = Some (Inl TypeError) \<and>
         (\<exists>out. processMap m = Some (Inr out) \<and> out \<noteq> [])"
proof -
  from solveMap_cells[OF assms(2)] assms(1) have s: "solved dm" "concat dm \<noteq> []" by simp_all
  from getGoodPathsFromStartPoints_solved[OF s] obtain ps where
    ps: "getGoodPathsFromStartPoints dm (findBestStartPoints dm) = Some (Inr ps)" "ps \<noteq> []"
    "\<forall>p\<in>set ps. descendingPath dm p \<and> int (length p) = bestDistance dm + 1 \<and>
              hd p \<in> set (findBestStartPoints dm)" by blast
  from getGoodPathsFromStartPoints_flr_agrees[OF s] ps(1)
  have ps': "getGoodPathsFromStartPoints_flr dm (findBestStartPoints dm) =
      Some (Inr (map entryOf ps))" by simp
  from ps(3) assms(3) have len: "\<forall>p\<in>set ps. length p = 1" by fastforce
  then have ne: "\<forall>p\<in>set ps. p \<noteq> []" by auto
  from ps(2) obtain p qs where pq: "ps = p # qs" by (cases ps) auto
  with len have "length p = 1" by simp
  then obtain c where "p = [c]" by (cases p) auto
  with pq have "addSteepnessAll_flr (map entryOf ps) = Inl TypeError"
    by (simp only: addSteepnessAll_flr_bare)
  then have "processMap_flr m = Some (Inl TypeError)"
    by (simp add: processMap_flr_def assms(2) ps' selectPathsWithGreatestSteepness_flr_def)
  moreover from select_steepest_core[OF ps(2) ne] obtain out where
    "selectPathsWithGreatestSteepness ps = Inr out" "out \<noteq> []" by blast
  then have "\<exists>out. processMap m = Some (Inr out) \<and> out \<noteq> []"
    by (simp add: processMap_def assms(2) ps(1))
  ultimately show ?thesis by blast
qed

section \<open>The claims\<close>

text \<open>
  C1. The distance solver returns a grid on every input: the input grid, cell for cell, with
  the same elevations, each cell at its own coordinates. In it the \<^verbatim>\<open>maxDistance\<close> \<open>md\<close> of
  every cell \<open>C\<close> is the number of edges of the longest descending path that starts at \<open>C\<close>:
  some descending path from \<open>C\<close> has \<open>md\<close> edges and none has more. Moreover \<open>md\<close> is 0 when
  \<open>C\<close> holds no direction, and otherwise 1 plus the greatest \<^verbatim>\<open>maxDistance\<close> of the neighbours
  that its directions reach, all of which exist and have one.
\<close>

theorem maxDistance_is_longest_descent:
  "\<exists>dm. solveMap mountainMap = Inr dm \<and> map (map elevation) dm = mountainMap \<and>
     (\<forall>cx cy C. getBoxAt dm cx cy = Some C \<longrightarrow>
        x C = cx \<and> y C = cy \<and>
        (\<exists>md. maxDistance C = Some md \<and>
           (\<exists>p. descendingPath dm (C # p) \<and> int (length p) = md) \<and>
           (\<forall>p. descendingPath dm (C # p) \<longrightarrow> int (length p) \<le> md) \<and>
           (if directionsOf C = [] then md = 0
            else \<exists>ks. neighbourDistances dm C = map Some ks \<and> md = 1 + Max (set ks))))"
proof -
  from solveMap_solved[of mountainMap] obtain dm where
    dm: "solveMap mountainMap = Inr dm" "solved dm" by blast
  have el: "map (map elevation) dm = mountainMap" by (rule solveMap_elevations[OF dm(1)])
  have "x C = cx \<and> y C = cy \<and>
        (\<exists>md. maxDistance C = Some md \<and>
           (\<exists>p. descendingPath dm (C # p) \<and> int (length p) = md) \<and>
           (\<forall>p. descendingPath dm (C # p) \<longrightarrow> int (length p) \<le> md) \<and>
           (if directionsOf C = [] then md = 0
            else \<exists>ks. neighbourDistances dm C = map Some ks \<and> md = 1 + Max (set ks)))"
    if C: "getBoxAt dm cx cy = Some C" for cx cy C
  proof -
    from solved_getBoxAt[OF dm(2) C] have bs: "boxSolved dm C"
      and co: "x C = cx \<and> y C = cy"
      and cell: "getBoxAt dm (x C) (y C) = Some C" using C by simp_all
    from bs have "\<exists>md. maxDistance C = Some md \<and>
           (\<exists>p. descendingPath dm (C # p) \<and> int (length p) = md) \<and>
           (\<forall>p. descendingPath dm (C # p) \<longrightarrow> int (length p) \<le> md) \<and>
           (if directionsOf C = [] then md = 0
            else \<exists>ks. neighbourDistances dm C = map Some ks \<and> md = 1 + Max (set ks))"
    proof (rule boxSolved_facts)
      fix m assume m: "maxDistance C = Some m" "0 \<le> m"
        and none: "descendingDirections dm C = [] \<Longrightarrow> m = 0 \<and> goodDirections C = None"
        and some: "descendingDirections dm C \<noteq> [] \<Longrightarrow>
           goodDirections C = Some (filter (\<lambda>d. distanceVia dm C d = Some m) DIRECTIONS) \<and>
           filter (\<lambda>d. distanceVia dm C d = Some m) DIRECTIONS \<noteq> [] \<and> 1 \<le> m"
      have longest: "\<exists>p. descendingPath dm (C # p) \<and> int (length p) = m"
      proof -
        from getGoodPathsFromBox_solved[OF dm(2) cell m(1)] obtain ps where
          ps: "ps \<noteq> []" "\<forall>p\<in>set ps. descendingPath dm p \<and> hd p = C \<and> int (length p) = m + 1"
          by blast
        then have p0: "descendingPath dm (hd ps)" "hd (hd ps) = C" "int (length (hd ps)) = m + 1"
          by simp_all
        from p0(3) m(2) obtain c p where cp: "hd ps = c # p" by (cases "hd ps") auto
        with p0 show ?thesis by (intro exI[of _ p]) simp
      qed
      have bound: "\<forall>p. descendingPath dm (C # p) \<longrightarrow> int (length p) \<le> m"
        using descendingPath_bound[OF dm(2) _ m(1)] by blast
      have local: "if directionsOf C = [] then m = 0
            else \<exists>ks. neighbourDistances dm C = map Some ks \<and> m = 1 + Max (set ks)"
      proof (cases "descendingDirections dm C = []")
        case True
        with none show ?thesis by (simp add: directionsOf_def)
      next
        case False
        let ?ds = "filter (\<lambda>d. distanceVia dm C d = Some m) DIRECTIONS"
        from some[OF False] have s: "goodDirections C = Some ?ds" "?ds \<noteq> []" by simp_all
        let ?ks = "replicate (length ?ds) (m - 1)"
        have nd: "neighbourDistances dm C = map Some ?ks" by (rule neighbourDistances_solved[OF s(1)])
        have "set ?ks = {m - 1}" using s(2) by simp
        then have "m = 1 + Max (set ?ks)" by simp
        with nd have "\<exists>ks. neighbourDistances dm C = map Some ks \<and> m = 1 + Max (set ks)"
          by blast
        moreover have "directionsOf C \<noteq> []" using s by (simp add: directionsOf_def)
        ultimately show ?thesis by simp
      qed
      from m(1) longest bound local show ?thesis by blast
    qed
    with co show ?thesis by blast
  qed
  with dm(1) el show ?thesis by blast
qed

theorem maxDistance_is_longest_descent_witness:
  "\<exists>dm C p ks. solveMap [[4, 3], [2, 1]] = Inr dm \<and>
     map (map elevation) dm = [[4, 3], [2, 1]] \<and> getBoxAt dm 0 0 = Some C \<and>
     x C = 0 \<and> y C = 0 \<and> elevation C = 4 \<and>
     maxDistance C = Some 2 \<and> descendingPath dm (C # p) \<and> int (length p) = 2 \<and>
     neighbourDistances dm C = map Some ks \<and> (2::int) = 1 + Max (set ks)"
proof -
  let ?b4 = "\<lparr>x = 0, y = 0, elevation = 4, maxDistance = Some 2,
              goodDirections = Some [(0, 1), (1, 0)]\<rparr>"
  let ?b3 = "\<lparr>x = 1, y = 0, elevation = 3, maxDistance = Some 1, goodDirections = Some [(0, 1)]\<rparr>"
  let ?b2 = "\<lparr>x = 0, y = 1, elevation = 2, maxDistance = Some 1, goodDirections = Some [(1, 0)]\<rparr>"
  let ?b1 = "\<lparr>x = 1, y = 1, elevation = 1, maxDistance = Some 0, goodDirections = None\<rparr>"
  from maxDistance_is_longest_descent[of "[[4, 3], [2, 1]]"] obtain dm where
    dm: "solveMap [[4, 3], [2, 1]] = Inr dm"
    and el: "map (map elevation) dm = [[4, 3], [2, 1]]"
    and all: "\<forall>cx cy C. getBoxAt dm cx cy = Some C \<longrightarrow>
        x C = cx \<and> y C = cy \<and>
        (\<exists>md. maxDistance C = Some md \<and>
           (\<exists>p. descendingPath dm (C # p) \<and> int (length p) = md) \<and>
           (\<forall>p. descendingPath dm (C # p) \<longrightarrow> int (length p) \<le> md) \<and>
           (if directionsOf C = [] then md = 0
            else \<exists>ks. neighbourDistances dm C = map Some ks \<and> md = 1 + Max (set ks)))"
    by (elim exE conjE) (rule that)
  have ev: "solveMap [[4, 3], [2, 1]] = Inr [[?b4, ?b3], [?b2, ?b1]]" by code_simp
  with dm have dmv: "dm = [[?b4, ?b3], [?b2, ?b1]]" by simp
  have C: "getBoxAt dm 0 0 = Some ?b4" unfolding dmv by code_simp
  have ne: "directionsOf ?b4 \<noteq> []" by (simp add: directionsOf_def)
  from all C have co: "x ?b4 = 0 \<and> y ?b4 = 0" by blast
  from all C obtain md where md: "maxDistance ?b4 = Some md"
    "\<exists>p. descendingPath dm (?b4 # p) \<and> int (length p) = md"
    "if directionsOf ?b4 = [] then md = 0
     else \<exists>ks. neighbourDistances dm ?b4 = map Some ks \<and> md = 1 + Max (set ks)" by blast
  from md(1) have md2: "md = 2" by simp
  from md(2) md2 obtain p where p: "descendingPath dm (?b4 # p)" "int (length p) = 2" by blast
  from md(3) ne md2 obtain ks where ks: "neighbourDistances dm ?b4 = map Some ks"
    "(2::int) = 1 + Max (set ks)" by auto
  from dm el C p ks show ?thesis
    by (intro exI[of _ dm] exI[of _ ?b4] exI[of _ p] exI[of _ ks]) simp
qed

text \<open>
  C2. On the flat grid \<open>[[7,7]]\<close> no cell has a way down: \<open>bestDistance\<close> is 0 and both cells
  are best start points. The enumerator of \<^verbatim>\<open>src/unnamed/part_000\<close> returns the two one-cell
  paths. That of \<^verbatim>\<open>src/find_longest_route.js\<close> returns the two boxes themselves in place of
  paths: neither is a sequence of \<open>bestDistance + 1\<close> cells.
\<close>

theorem enumerator_copy_yields_bare_boxes:
  "solveMap [[7, 7]] =
     Inr [[\<lparr>x = 0, y = 0, elevation = 7, maxDistance = Some 0, goodDirections = None\<rparr>,
           \<lparr>x = 1, y = 0, elevation = 7, maxDistance = Some 0, goodDirections = None\<rparr>]] \<and>
   bestDistance
         [[\<lparr>x = 0, y = 0, elevation = 7, maxDistance = Some 0, goodDirections = None\<rparr>,
           \<lparr>x = 1, y = 0, elevation = 7, maxDistance = Some 0, goodDirections = None\<rparr>]] = 0 \<and>
   getGoodPathsFromStartPoints_flr
         [[\<lparr>x = 0, y = 0, elevation = 7, maxDistance = Some 0, goodDirections = None\<rparr>,
           \<lparr>x = 1, y = 0, elevation = 7, maxDistance = Some 0, goodDirections = None\<rparr>]]
         (findBestStartPoints
           [[\<lparr>x = 0, y = 0, elevation = 7, maxDistance = Some 0, goodDirections = None\<rparr>,
             \<lparr>x = 1, y = 0, elevation = 7, maxDistance = Some 0, goodDirections = None\<rparr>]]) =
     Some (Inr [Bare (Some \<lparr>x = 0, y = 0, elevation = 7, maxDistance = Some 0,
                             goodDirections = None\<rparr>),
                Bare (Some \<lparr>x = 1, y = 0, elevation = 7, maxDistance = Some 0,
                             goodDirections = None\<rparr>)]) \<and>
   getGoodPathsFromStartPoints
         [[\<lparr>x = 0, y = 0, elevation = 7, maxDistance = Some 0, goodDirections = None\<rparr>,
           \<lparr>x = 1, y = 0, elevation = 7, maxDistance = Some 0, goodDirections = None\<rparr>]]
         (findBestStartPoints
           [[\<lparr>x = 0, y = 0, elevation = 7, maxDistance = Some 0, goodDirections = None\<rparr>,
             \<lparr>x = 1, y = 0, elevation = 7, maxDistance = Some 0, goodDirections = None\<rparr>]]) =
     Some (Inr [[\<lparr>x = 0, y = 0, elevation = 7, maxDistance = Some 0, goodDirections = None\<rparr>],
                [\<lparr>x = 1, y = 0, elevation = 7, maxDistance = Some 0, goodDirections = None\<rparr>]])"
  by code_simp

text \<open>
  C3, as the program behaves. The steepness that \<^verbatim>\<open>addSteepness\<close> records is the difference
  of the two elevations as a double: rounded to the nearest one, and exact when its magnitude
  is at most \<open>2^53\<close>. Given a non-empty list of paths, each with at least one cell,
  \<^verbatim>\<open>selectPathsWithGreatestSteepness\<close> returns exactly the paths whose recorded steepness is
  the greatest of the list, in their input order, and that greatest value is the steepness
  recorded with each: a non-empty selection of its input. Where every exact difference has a
  magnitude of at most \<open>2^53\<close>, these are the paths whose exact difference is the greatest.
\<close>

theorem select_steepest_as_computed:
  assumes "potentialPaths \<noteq> []" and "\<forall>p\<in>set potentialPaths. p \<noteq> []"
  shows "\<exists>out g. selectPathsWithGreatestSteepness potentialPaths = Inr out \<and>
           map cells out = filter (\<lambda>p. jsSteepness p = g) potentialPaths \<and>
           out \<noteq> [] \<and> set (map cells out) \<subseteq> set potentialPaths \<and>
           g \<in> jsSteepness ` set potentialPaths \<and>
           (\<forall>p\<in>set potentialPaths. \<not> js_less g (jsSteepness p)) \<and>
           (\<forall>sp\<in>set out. steepness sp = g \<and> steepness sp = jsSteepness (cells sp)) \<and>
           ((\<forall>p\<in>set potentialPaths. \<bar>pathSteepness p\<bar> \<le> 2 ^ 53) \<longrightarrow>
              g = Finite (Max (pathSteepness ` set potentialPaths)) \<and>
              map cells out =
                filter (\<lambda>p. pathSteepness p = Max (pathSteepness ` set potentialPaths))
                  potentialPaths)"
proof -
  from select_steepest_core[OF assms] obtain out g where
    sel: "selectPathsWithGreatestSteepness potentialPaths = Inr out"
    and cells: "map cells out = filter (\<lambda>p. jsSteepness p = g) potentialPaths"
    and ne: "out \<noteq> []"
    and g: "g \<in> jsSteepness ` set potentialPaths"
    and top: "\<forall>p\<in>set potentialPaths. \<not> js_less g (jsSteepness p)"
    and st: "\<forall>sp\<in>set out. steepness sp = g \<and> steepness sp = jsSteepness (cells sp)"
    by blast
  from cells have sub: "set (map cells out) \<subseteq> set potentialPaths" by auto
  have exact: "g = Finite (Max (pathSteepness ` set potentialPaths)) \<and>
       map cells out =
         filter (\<lambda>p. pathSteepness p = Max (pathSteepness ` set potentialPaths)) potentialPaths"
    if small: "\<forall>p\<in>set potentialPaths. \<bar>pathSteepness p\<bar> \<le> 2 ^ 53"
  proof -
    have js: "jsSteepness p = Finite (pathSteepness p)" if "p \<in> set potentialPaths" for p
      using small that js_minus_exact[of "elevation (hd p)" "elevation (last p)"]
      by (simp add: jsSteepness_def pathSteepness_def)
    from g obtain p0 where p0: "p0 \<in> set potentialPaths" "g = Finite (pathSteepness p0)"
      using js by auto
    have "pathSteepness p \<le> pathSteepness p0" if "p \<in> set potentialPaths" for p
      using top that js[OF that] p0(2) by auto
    with p0(1) have M: "Max (pathSteepness ` set potentialPaths) = pathSteepness p0"
      by (intro Max_eqI) auto
    have "filter (\<lambda>p. jsSteepness p = g) potentialPaths =
        filter (\<lambda>p. pathSteepness p = Max (pathSteepness ` set potentialPaths)) potentialPaths"
      by (rule filter_cong) (simp_all add: js p0(2) M)
    with cells p0(2) M show ?thesis by simp
  qed
  from sel cells ne sub g top st exact show ?thesis by blast
qed

theorem select_steepest_as_computed_witness:
  "\<exists>out. [[\<lparr>x = 0, y = 0, elevation = 5, maxDistance = Some 1, goodDirections = Some [(1, 0)]\<rparr>,
            \<lparr>x = 1, y = 0, elevation = 4, maxDistance = Some 0, goodDirections = None\<rparr>],
           [\<lparr>x = 0, y = 2, elevation = 9, maxDistance = Some 1, goodDirections = Some [(1, 0)]\<rparr>,
            \<lparr>x = 1, y = 2, elevation = 2, maxDistance = Some 0, goodDirections = None\<rparr>]] \<noteq> [] \<and>
     selectPathsWithGreatestSteepness
          [[\<lparr>x = 0, y = 0, elevation = 5, maxDistance = Some 1, goodDirections = Some [(1, 0)]\<rparr>,
            \<lparr>x = 1, y = 0, elevation = 4, maxDistance = Some 0, goodDirections = None\<rparr>],
           [\<lparr>x = 0, y = 2, elevation = 9, maxDistance = Some 1, goodDirections = Some [(1, 0)]\<rparr>,
            \<lparr>x = 1, y = 2, elevation = 2, maxDistance = Some 0, goodDirections = None\<rparr>]] = Inr out \<and>
     map cells out =
          [[\<lparr>x = 0, y = 2, elevation = 9, maxDistance = Some 1, goodDirections = Some [(1, 0)]\<rparr>,
            \<lparr>x = 1, y = 2, elevation = 2, maxDistance = Some 0, goodDirections = None\<rparr>]] \<and>
     out \<noteq> [] \<and> steepness (hd out) = Finite 7"
proof -
  let ?p1 = "[\<lparr>x = 0, y = 0, elevation = 5, maxDistance = Some 1, goodDirections = Some [(1, 0)]\<rparr>,
            \<lparr>x = 1, y = 0, elevation = 4, maxDistance = Some 0, goodDirections = None\<rparr>]"
  let ?p2 = "[\<lparr>x = 0, y = 2, elevation = 9, maxDistance = Some 1, goodDirections = Some [(1, 0)]\<rparr>,
            \<lparr>x = 1, y = 2, elevation = 2, maxDistance = Some 0, goodDirections = None\<rparr>]"
  have h1: "[?p1, ?p2] \<noteq> []" by simp
  have h2: "\<forall>p\<in>set [?p1, ?p2]. p \<noteq> []" by simp
  have s1: "pathSteepness ?p1 = 1" and s2: "pathSteepness ?p2 = 7"
    by (simp_all add: pathSteepness_def)
  have h3: "\<forall>p\<in>set [?p1, ?p2]. \<bar>pathSteepness p\<bar> \<le> 2 ^ 53" by (simp add: s1 s2)
  have M: "Max (pathSteepness ` set [?p1, ?p2]) = 7" by (simp add: s1 s2)
  from select_steepest_as_computed[OF h1 h2] obtain out g where
    out: "selectPathsWithGreatestSteepness [?p1, ?p2] = Inr out"
    "out \<noteq> []"
    "\<forall>sp\<in>set out. steepness sp = g \<and> steepness sp = jsSteepness (cells sp)"
    "(\<forall>p\<in>set [?p1, ?p2]. \<bar>pathSteepness p\<bar> \<le> 2 ^ 53) \<longrightarrow>
       g = Finite (Max (pathSteepness ` set [?p1, ?p2])) \<and>
       map cells out =
         filter (\<lambda>p. pathSteepness p = Max (pathSteepness ` set [?p1, ?p2])) [?p1, ?p2]"
    by blast
  from out(4) h3 have g: "g = Finite (Max (pathSteepness ` set [?p1, ?p2]))"
    and f: "map cells out =
         filter (\<lambda>p. pathSteepness p = Max (pathSteepness ` set [?p1, ?p2])) [?p1, ?p2]"
    by blast+
  from f have c: "map cells out = [?p2]" unfolding M by (simp add: s1 s2)
  from out(2) have "hd out \<in> set out" by simp
  with out(3) g have "steepness (hd out) = Finite 7" unfolding M by blast
  with h1 out(1,2) c show ?thesis by (intro exI[of _ out]) simp
qed

text \<open>
  C3, as the specification states it, fails. Of the two paths from elevation \<open>2^53\<close>, one down
  to 0 and one down to -1, the second alone has the greatest difference of elevations,
  \<open>2^53 + 1\<close>. That number is no double: the program records \<open>2^53\<close> for both paths and returns
  both.
\<close>

theorem select_steepest_rounding_counterexample:
  "map_sum id elevationsOf
     (selectPathsWithGreatestSteepness
        [[\<lparr>x = 1, y = 0, elevation = 9007199254740992, maxDistance = Some 1,
            goodDirections = Some [(- 1, 0), (1, 0)]\<rparr>,
          \<lparr>x = 0, y = 0, elevation = 0, maxDistance = Some 0, goodDirections = None\<rparr>],
         [\<lparr>x = 1, y = 0, elevation = 9007199254740992, maxDistance = Some 1,
            goodDirections = Some [(- 1, 0), (1, 0)]\<rparr>,
          \<lparr>x = 2, y = 0, elevation = - 1, maxDistance = Some 0, goodDirections = None\<rparr>]]) =
     Inr [([9007199254740992, 0], Finite 9007199254740992),
          ([9007199254740992, - 1], Finite 9007199254740992)] \<and>
   map (map elevation)
     (filter (\<lambda>p. pathSteepness p =
          Max (pathSteepness `
            set [[\<lparr>x = 1, y = 0, elevation = 9007199254740992, maxDistance = Some 1,
                    goodDirections = Some [(- 1, 0), (1, 0)]\<rparr>,
                  \<lparr>x = 0, y = 0, elevation = 0, maxDistance = Some 0, goodDirections = None\<rparr>],
                 [\<lparr>x = 1, y = 0, elevation = 9007199254740992, maxDistance = Some 1,
                    goodDirections = Some [(- 1, 0), (1, 0)]\<rparr>,
                  \<lparr>x = 2, y = 0, elevation = - 1, maxDistance = Some 0,
                    goodDirections = None\<rparr>]]))
        [[\<lparr>x = 1, y = 0, elevation = 9007199254740992, maxDistance = Some 1,
            goodDirections = Some [(- 1, 0), (1, 0)]\<rparr>,
          \<lparr>x = 0, y = 0, elevation = 0, maxDistance = Some 0, goodDirections = None\<rparr>],
         [\<lparr>x = 1, y = 0, elevation = 9007199254740992, maxDistance = Some 1,
            goodDirections = Some [(- 1, 0), (1, 0)]\<rparr>,
          \<lparr>x = 2, y = 0, elevation = - 1, maxDistance = Some 0, goodDirections = None\<rparr>]]) =
     [[9007199254740992, - 1]]"
  by code_simp

text \<open>
  These two paths are what the enumerator finds on the grid \<open>[[0, 2^53, -1]]\<close>, and the
  pipeline returns both.
\<close>

lemma processMap_rounds_steepness:
  "map_option (map_sum id elevationsOf) (processMap [[0, 9007199254740992, - 1]]) =
     Some (Inr [([9007199254740992, 0], Finite 9007199254740992),
                ([9007199254740992, - 1], Finite 9007199254740992)])"
  by code_simp

text \<open>
  C4, as the program behaves. On a grid with no cell the pipeline of
  \<^verbatim>\<open>src/unnamed/part_000\<close> signals no error: the solver, the enumerator and the selector all
  return, and the result is the empty list of paths.
\<close>

theorem processMap_no_cells:
  "concat mountainMap = [] \<Longrightarrow> processMap mountainMap = Some (Inr [])"
proof -
  assume e: "concat mountainMap = []"
  from solveMap_solved[of mountainMap] obtain dm where dm: "solveMap mountainMap = Inr dm"
    by blast
  from solveMap_cells(2)[OF dm] e have "concat dm = []" by simp
  then have "findBestStartPoints dm = []" by (rule findBestStartPoints_no_cells)
  then show ?thesis
    by (simp add: processMap_def dm getGoodPathsFromStartPoints_def
        selectPathsWithGreatestSteepness_def underscore_max_def)
qed

theorem processMap_no_cells_witness:
  "concat [[], [] :: int list] = [] \<and> processMap [[], []] = Some (Inr [])"
  using processMap_no_cells[of "[[], []]"] by simp

text \<open>
  C4, as the specification states it, fails: on the empty grid the pipeline returns a result,
  the empty list, and not an error.
\<close>

theorem processMap_empty_grid_counterexample: "processMap [] = Some (Inr [])"
  by code_simp

text \<open>
  C5. On the grid \<open>[[1]]\<close> the pipeline of \<^verbatim>\<open>src/unnamed/part_000\<close> returns one path, the
  single cell of elevation 1, with steepness 0. The pipeline of
  \<^verbatim>\<open>src/find_longest_route.js\<close> does not: its enumerator returns the box itself in place
  of a one-cell array, and \<^verbatim>\<open>addSteepness\<close> throws a TypeError on it.
\<close>

theorem scenarioA_single_cell:
  "processMap_flr [[1]] = Some (Inl TypeError) \<and>
   map_option (map_sum id elevationsOf) (processMap [[1]]) = Some (Inr [([1], Finite 0)])"
  by code_simp

text \<open>
  C6. The distance solver returns a grid on every input, and in that grid every direction
  stored in the \<^verbatim>\<open>goodDirections\<close> of a cell \<open>C\<close> leads to an existing neighbour \<open>N\<close> with
  \<open>N.elevation < C.elevation\<close> and \<open>N.maxDistance + 1 = C.maxDistance\<close>.
\<close>

theorem goodDirections_point_downhill:
  "\<exists>dm. solveMap mountainMap = Inr dm \<and>
     (\<forall>cx cy C ds d. getBoxAt dm cx cy = Some C \<longrightarrow> goodDirections C = Some ds \<longrightarrow>
        d \<in> set ds \<longrightarrow>
        (\<exists>N n. getNeighbourInDirection dm C d = Some N \<and> elevation N < elevation C \<and>
           maxDistance N = Some n \<and> maxDistance C = Some (n + 1)))"
proof -
  from solveMap_solved[of mountainMap] obtain dm where
    dm: "solveMap mountainMap = Inr dm" "solved dm" by blast
  have "\<exists>N n. getNeighbourInDirection dm C d = Some N \<and> elevation N < elevation C \<and>
           maxDistance N = Some n \<and> maxDistance C = Some (n + 1)"
    if C: "getBoxAt dm cx cy = Some C" and ds: "goodDirections C = Some ds" and d: "d \<in> set ds"
    for cx cy C ds d
  proof -
    from solved_getBoxAt[OF dm(2) C] have "boxSolved dm C" by simp
    then show ?thesis
    proof (rule boxSolved_facts)
      fix m assume m: "maxDistance C = Some m"
        and none: "descendingDirections dm C = [] \<Longrightarrow> m = 0 \<and> goodDirections C = None"
        and some: "descendingDirections dm C \<noteq> [] \<Longrightarrow>
           goodDirections C = Some (filter (\<lambda>d. distanceVia dm C d = Some m) DIRECTIONS) \<and>
           filter (\<lambda>d. distanceVia dm C d = Some m) DIRECTIONS \<noteq> [] \<and> 1 \<le> m"
      from none ds have "descendingDirections dm C \<noteq> []" by auto
      from some[OF this] ds d have "distanceVia dm C d = Some m" by auto
      then obtain N where "getNeighbourInDirection dm C d = Some N" "elevation N < elevation C"
        "maxDistance N = Some (m - 1)"
        unfolding distanceVia_def candidate_Some by blast
      with m show ?thesis by simp
    qed
  qed
  with dm(1) show ?thesis by blast
qed

theorem goodDirections_point_downhill_witness:
  "\<exists>dm C N. solveMap [[2, 1]] = Inr dm \<and> getBoxAt dm 0 0 = Some C \<and>
     goodDirections C = Some [(1, 0)] \<and> getNeighbourInDirection dm C (1, 0) = Some N \<and>
     elevation N < elevation C \<and> maxDistance N = Some 0 \<and> maxDistance C = Some 1"
proof -
  let ?C = "\<lparr>x = 0, y = 0, elevation = 2, maxDistance = Some 1, goodDirections = Some [(1, 0)]\<rparr>"
  let ?N = "\<lparr>x = 1, y = 0, elevation = 1, maxDistance = Some 0, goodDirections = None\<rparr>"
  from goodDirections_point_downhill[of "[[2, 1]]"] obtain dm where
    dm: "solveMap [[2, 1]] = Inr dm"
    and all: "\<forall>cx cy C ds d. getBoxAt dm cx cy = Some C \<longrightarrow> goodDirections C = Some ds \<longrightarrow>
        d \<in> set ds \<longrightarrow>
        (\<exists>N n. getNeighbourInDirection dm C d = Some N \<and> elevation N < elevation C \<and>
           maxDistance N = Some n \<and> maxDistance C = Some (n + 1))" by blast
  have ev: "solveMap [[2, 1]] = Inr [[?C, ?N]]" by code_simp
  with dm have dmv: "dm = [[?C, ?N]]" by simp
  have C: "getBoxAt dm 0 0 = Some ?C" unfolding dmv by code_simp
  have g: "goodDirections ?C = Some [(1, 0)]" by simp
  from all C g obtain N n where N: "getNeighbourInDirection dm ?C (1, 0) = Some N"
    "elevation N < elevation ?C" "maxDistance N = Some n" "maxDistance ?C = Some (n + 1)"
    by (metis list.set_intros(1))
  from N(4) have "n = 0" by simp
  with N(3) have "maxDistance N = Some 0" by simp
  with dm C N(1,2) show ?thesis
    by (intro exI[of _ dm] exI[of _ ?C] exI[of _ N]) simp
qed

text \<open>
  C7. In the solved grid every cell has a \<^verbatim>\<open>maxDistance\<close> \<open>md \<ge> 0\<close>, and it holds directions
  exactly when \<open>md > 0\<close>. A cell with no lower neighbour gets \<open>md = 0\<close> and holds no
  direction (the program leaves its \<^verbatim>\<open>goodDirections\<close> undefined); a cell with \<open>md > 0\<close> has
  an array of between 1 and 4 directions.
\<close>

theorem goodDirections_populated_iff:
  "\<exists>dm. solveMap mountainMap = Inr dm \<and>
     (\<forall>cx cy C. getBoxAt dm cx cy = Some C \<longrightarrow>
        (\<exists>md. maxDistance C = Some md \<and> 0 \<le> md \<and>
           (0 < md \<longleftrightarrow> directionsOf C \<noteq> []) \<and>
           (descendingDirections dm C = [] \<longrightarrow>
              md = 0 \<and> directionsOf C = [] \<and> goodDirections C = None) \<and>
           (0 < md \<longrightarrow>
              goodDirections C = Some (directionsOf C) \<and>
              1 \<le> length (directionsOf C) \<and> length (directionsOf C) \<le> 4)))"
proof -
  from solveMap_solved[of mountainMap] obtain dm where
    dm: "solveMap mountainMap = Inr dm" "solved dm" by blast
  have "\<exists>md. maxDistance C = Some md \<and> 0 \<le> md \<and>
           (0 < md \<longleftrightarrow> directionsOf C \<noteq> []) \<and>
           (descendingDirections dm C = [] \<longrightarrow>
              md = 0 \<and> directionsOf C = [] \<and> goodDirections C = None) \<and>
           (0 < md \<longrightarrow>
              goodDirections C = Some (directionsOf C) \<and>
              1 \<le> length (directionsOf C) \<and> length (directionsOf C) \<le> 4)"
    if C: "getBoxAt dm cx cy = Some C" for cx cy C
  proof -
    from solved_getBoxAt[OF dm(2) C] have "boxSolved dm C" by simp
    then show ?thesis
    proof (rule boxSolved_facts)
      fix m assume m: "maxDistance C = Some m" "0 \<le> m"
        and none: "descendingDirections dm C = [] \<Longrightarrow> m = 0 \<and> goodDirections C = None"
        and some: "descendingDirections dm C \<noteq> [] \<Longrightarrow>
           goodDirections C = Some (filter (\<lambda>d. distanceVia dm C d = Some m) DIRECTIONS) \<and>
           filter (\<lambda>d. distanceVia dm C d = Some m) DIRECTIONS \<noteq> [] \<and> 1 \<le> m"
      show ?thesis
      proof (cases "descendingDirections dm C = []")
        case True
        with none m show ?thesis by (simp add: directionsOf_def)
      next
        case False
        let ?ds = "filter (\<lambda>d. distanceVia dm C d = Some m) DIRECTIONS"
        from some[OF False] have s: "goodDirections C = Some ?ds" "?ds \<noteq> []" "1 \<le> m"
          by simp_all
        have "length ?ds \<le> 4" using length_filter_le[of _ DIRECTIONS] length_DIRECTIONS by metis
        moreover have "1 \<le> length ?ds" using s(2) by (cases ?ds) simp_all
        ultimately show ?thesis using s m False by (simp add: directionsOf_def)
      qed
    qed
  qed
  with dm(1) show ?thesis by blast
qed

theorem goodDirections_populated_iff_witness:
  "\<exists>dm C. solveMap [[2, 1]] = Inr dm \<and> getBoxAt dm 1 0 = Some C \<and>
     descendingDirections dm C = [] \<and> maxDistance C = Some 0 \<and> directionsOf C = [] \<and>
     goodDirections C = None"
proof -
  let ?C = "\<lparr>x = 0, y = 0, elevation = 2, maxDistance = Some 1, goodDirections = Some [(1, 0)]\<rparr>"
  let ?N = "\<lparr>x = 1, y = 0, elevation = 1, maxDistance = Some 0, goodDirections = None\<rparr>"
  from goodDirections_populated_iff[of "[[2, 1]]"] obtain dm where
    dm: "solveMap [[2, 1]] = Inr dm"
    and all: "\<forall>cx cy C. getBoxAt dm cx cy = Some C \<longrightarrow>
        (\<exists>md. maxDistance C = Some md \<and> 0 \<le> md \<and>
           (0 < md \<longleftrightarrow> directionsOf C \<noteq> []) \<and>
           (descendingDirections dm C = [] \<longrightarrow>
              md = 0 \<and> directionsOf C = [] \<and> goodDirections C = None) \<and>
           (0 < md \<longrightarrow>
              goodDirections C = Some (directionsOf C) \<and>
              1 \<le> length (directionsOf C) \<and> length (directionsOf C) \<le> 4))" by blast
  have ev: "solveMap [[2, 1]] = Inr [[?C, ?N]]" by code_simp
  with dm have dmv: "dm = [[?C, ?N]]" by simp
  have N: "getBoxAt dm 1 0 = Some ?N" unfolding dmv by code_simp
  have dd: "descendingDirections dm ?N = []" unfolding dmv by code_simp
  from all N dd obtain md where "maxDistance ?N = Some md" "md = 0" "directionsOf ?N = []"
    "goodDirections ?N = None" by blast
  with dm N dd show ?thesis
    by (intro exI[of _ dm] exI[of _ ?N]) simp
qed

text \<open>
  C8. On every grid with at least one cell, \<^verbatim>\<open>findBestStartPoints\<close> returns exactly the cells
  of the solved grid whose \<^verbatim>\<open>maxDistance\<close> is the greatest of the grid, in scan order, and
  there is at least one. Every path that the enumerator then returns starts at one of them,
  so at a cell whose \<^verbatim>\<open>maxDistance\<close> is that maximum.
\<close>

theorem best_start_points_exact:
  "concat mountainMap \<noteq> [] \<Longrightarrow>
   \<exists>dm ps. solveMap mountainMap = Inr dm \<and>
     findBestStartPoints dm =
       filter (\<lambda>b. maxDistance b = Some (bestDistance dm)) (concat dm) \<and>
     findBestStartPoints dm \<noteq> [] \<and>
     getGoodPathsFromStartPoints dm (findBestStartPoints dm) = Some (Inr ps) \<and>
     (\<forall>p\<in>set ps. p \<noteq> [] \<and> hd p \<in> set (findBestStartPoints dm) \<and>
        maxDistance (hd p) = Some (bestDistance dm))"
proof -
  assume ne: "concat mountainMap \<noteq> []"
  from solveMap_solved[of mountainMap] obtain dm where dm: "solveMap mountainMap = Inr dm"
    by blast
  from solveMap_cells[OF dm] ne have s: "solved dm" "concat dm \<noteq> []" by simp_all
  note fb = findBestStartPoints_solved[OF s]
  from getGoodPathsFromStartPoints_solved[OF s] obtain ps where
    ps: "getGoodPathsFromStartPoints dm (findBestStartPoints dm) = Some (Inr ps)"
    "\<forall>p\<in>set ps. descendingPath dm p \<and> int (length p) = bestDistance dm + 1 \<and>
              hd p \<in> set (findBestStartPoints dm)" by blast
  have "p \<noteq> [] \<and> hd p \<in> set (findBestStartPoints dm) \<and>
        maxDistance (hd p) = Some (bestDistance dm)" if "p \<in> set ps" for p
  proof -
    from ps(2) that have p: "descendingPath dm p" "hd p \<in> set (findBestStartPoints dm)" by auto
    from p(1) have "p \<noteq> []" by auto
    moreover from p(2) have "maxDistance (hd p) = Some (bestDistance dm)"
      unfolding fb(1) by simp
    ultimately show ?thesis using p(2) by simp
  qed
  with dm fb(1,2) ps(1) show ?thesis by blast
qed

theorem best_start_points_exact_witness:
  "\<exists>dm ps. concat [[1, 2], [2, 1 :: int]] \<noteq> [] \<and> solveMap [[1, 2], [2, 1]] = Inr dm \<and>
     map elevation (findBestStartPoints dm) = [2, 2] \<and> bestDistance dm = 1 \<and>
     getGoodPathsFromStartPoints dm (findBestStartPoints dm) = Some (Inr ps) \<and>
     hd ps \<noteq> [] \<and> hd (hd ps) \<in> set (findBestStartPoints dm) \<and>
     maxDistance (hd (hd ps)) = Some (bestDistance dm)"
proof -
  have ne: "concat [[1, 2], [2, 1 :: int]] \<noteq> []" by simp
  from best_start_points_exact[OF ne] obtain dm ps where
    dm: "solveMap [[1, 2], [2, 1]] = Inr dm"
    and fb: "findBestStartPoints dm =
       filter (\<lambda>b. maxDistance b = Some (bestDistance dm)) (concat dm)"
    and ps: "getGoodPathsFromStartPoints dm (findBestStartPoints dm) = Some (Inr ps)"
    and all: "\<forall>p\<in>set ps. p \<noteq> [] \<and> hd p \<in> set (findBestStartPoints dm) \<and>
        maxDistance (hd p) = Some (bestDistance dm)" by blast
  let ?D = "[[\<lparr>x = 0, y = 0, elevation = 1, maxDistance = Some 0, goodDirections = None\<rparr>,
              \<lparr>x = 1, y = 0, elevation = 2, maxDistance = Some 1,
                goodDirections = Some [(-1, 0), (0, 1)]\<rparr>],
             [\<lparr>x = 0, y = 1, elevation = 2, maxDistance = Some 1,
                goodDirections = Some [(1, 0), (0, -1)]\<rparr>,
              \<lparr>x = 1, y = 1, elevation = 1, maxDistance = Some 0, goodDirections = None\<rparr>]]"
  have ev: "solveMap [[1, 2], [2, 1]] = Inr ?D" by code_simp
  with dm have dmv: "dm = ?D" by simp
  have e: "map elevation (findBestStartPoints dm) = [2, 2]" unfolding dmv by code_simp
  have bd: "bestDistance dm = 1" unfolding dmv by code_simp
  have "map_option (map_sum id (map (map elevation)))
          (getGoodPathsFromStartPoints ?D (findBestStartPoints ?D)) =
        Some (Inr [[2, 1], [2, 1], [2, 1], [2, 1]])"
    by code_simp
  with ps have "map (map elevation) ps = [[2, 1], [2, 1], [2, 1], [2, 1]]" unfolding dmv by simp
  then obtain p qs where psv: "ps = p # qs" by (cases ps) auto
  with all have "hd ps \<noteq> [] \<and> hd (hd ps) \<in> set (findBestStartPoints dm) \<and>
     maxDistance (hd (hd ps)) = Some (bestDistance dm)" by simp
  with ne dm e bd ps show ?thesis
    by (intro exI[of _ dm] exI[of _ ps]) simp
qed

text \<open>
  C9, as the program behaves. On the grid \<open>[[4,3],[2,1]]\<close> the pipeline of
  \<^verbatim>\<open>src/unnamed/part_000\<close> returns two paths, with elevations 4-2-1 and 4-3-1: the longest
  descending path has 3 cells (2 edges), and the steepness selected is 3. The cells 3 and 2
  touch only at a corner, so no descending path visits all four cells.
\<close>

theorem scenarioB_paths:
  "map_option (map_sum id elevationsOf) (processMap [[4, 3], [2, 1]]) =
     Some (Inr [([4, 2, 1], Finite 3), ([4, 3, 1], Finite 3)])"
  by code_simp

text \<open>
  C9, as the specification states it, fails: the paths found on \<open>[[4,3],[2,1]]\<close> have
  3 cells each, not 4.
\<close>

theorem scenarioB_counterexample:
  "map_option (map_sum id (map (\<lambda>p. length (cells p)))) (processMap [[4, 3], [2, 1]]) =
     Some (Inr [3, 3])"
  by code_simp

text \<open>
  C10. The two pipelines differ on a flat grid: on \<open>[[7,7]]\<close> that of
  \<^verbatim>\<open>src/unnamed/part_000\<close> returns the two one-cell paths, and that of
  \<^verbatim>\<open>src/find_longest_route.js\<close> throws a TypeError.
\<close>

theorem pipelines_differ_on_flat_grid:
  "processMap_flr [[7, 7]] = Some (Inl TypeError) \<and>
   map_option (map_sum id elevationsOf) (processMap [[7, 7]]) =
     Some (Inr [([7], Finite 0), ([7], Finite 0)])"
  by code_simp

end
